theory Spec2Isabelle
  imports Main "HOL-Library.While_Combinator"
begin

section \<open>The link stage of tools/shared.py\<close>

text \<open>
  A shallow embedding of the archive-aware link step \<^verbatim>\<open>Building.link\<close> of
  \<^verbatim>\<open>tools/shared.py\<close>, of the helpers it relies on (\<^verbatim>\<open>unique_ordered\<close>,
  \<^verbatim>\<open>Building.parse_symbols\<close>, \<^verbatim>\<open>warn_if_duplicate_entries\<close>,
  \<^verbatim>\<open>extract_archive_contents\<close>) and of the root marking of \<^verbatim>\<open>Building.metadce\<close>.

  Paths, symbol names and flags are Python strings; they are modelled as \<^typ>\<open>string\<close>.
  Whatever the code reads from the file system or from an external tool is a field of
  an environment record, so that the functions below are pure.
\<close>

subsection \<open>Data\<close>

text \<open>\<^verbatim>\<open>class ObjectFileInfo\<close>: the result of running the symbol tool on one file.\<close>

record ObjectFileInfo =
  returncode :: int
  tool_output :: "string option"
  defs :: "string set"
  undefs :: "string set"
  commons :: "string set"

definition is_valid_for_nm :: "ObjectFileInfo \<Rightarrow> bool" where
  "is_valid_for_nm info = (returncode info = 0)"

text \<open>
  The environment of one call of \<^verbatim>\<open>Building.link\<close>:
  \<^item> \<open>abspath\<close> is \<^verbatim>\<open>os.path.abspath\<close>;
  \<^item> \<open>is_ar\<close> and \<open>is_bitcode\<close> are the magic-number tests \<^verbatim>\<open>Building.is_ar\<close> and
    \<^verbatim>\<open>Building.is_bitcode\<close> on a file that can be opened;
  \<^item> \<open>llvm_nm\<close> is \<^verbatim>\<open>Building.llvm_nm\<close>, the (cached) symbol table of a path;
  \<^item> \<open>ar_contents\<close> is the dictionary \<^verbatim>\<open>Building.ar_contents\<close> as
    \<^verbatim>\<open>read_link_inputs\<close> leaves it: the member paths of every archive read (an
    archive that the archive tool could not read has no entry; \<^verbatim>\<open>read_link_inputs\<close>
    raises for it, and here the lookup of \<^verbatim>\<open>consider_archive\<close> fails);
  \<^item> \<open>EXPORTED_FUNCTIONS\<close> is \<^verbatim>\<open>Settings.EXPORTED_FUNCTIONS\<close>.
\<close>

record env =
  abspath :: "string \<Rightarrow> string"
  is_ar :: "string \<Rightarrow> bool"
  is_bitcode :: "string \<Rightarrow> bool"
  llvm_nm :: "string \<Rightarrow> ObjectFileInfo"
  ar_contents :: "string \<rightharpoonup> string list"
  EXPORTED_FUNCTIONS :: "string list"

text \<open>
  The variables that the closures of \<^verbatim>\<open>link\<close> share and mutate, and the warnings
  logged so far.
\<close>

record link_state =
  unresolved_symbols :: "string set"
  resolved_symbols :: "string set"
  added_contents :: "string set"
  actual_files :: "string list"
  warnings :: "string list"

datatype error =
    NestedStartGroup
  | EndGroupWithoutStartGroup
  | UnsupportedLinkFlag string
  | KeyError string
  | IndexError

subsection \<open>unique_ordered\<close>

text \<open>
  \<^verbatim>\<open>unique_ordered(values)\<close> filters the list with a closure that records the values
  seen so far.
\<close>

fun unique_ordered_from :: "'a set \<Rightarrow> 'a list \<Rightarrow> 'a list" where
  "unique_ordered_from seen [] = []"
| "unique_ordered_from seen (v # vs) =
     (if v \<in> seen then unique_ordered_from seen vs
      else v # unique_ordered_from (insert v seen) vs)"

definition unique_ordered :: "'a list \<Rightarrow> 'a list" where
  "unique_ordered values = unique_ordered_from {} values"

subsection \<open>Building.link\<close>

definition startswith_dash :: "string \<Rightarrow> bool" where
  "startswith_dash f = (case f of [] \<Rightarrow> False | c # _ \<Rightarrow> c = CHR ''-'')"

definition make_paths_absolute :: "env \<Rightarrow> string \<Rightarrow> string" where
  "make_paths_absolute e f = (if startswith_dash f then f else abspath e f)"

text \<open>The loop that computes \<^verbatim>\<open>has_ar\<close>.\<close>

definition has_ar :: "env \<Rightarrow> string list \<Rightarrow> bool" where
  "has_ar e files =
     fold (\<lambda>f h. if \<not> startswith_dash f then h \<or> is_ar e (make_paths_absolute e f) else h)
       files False"

definition force_add_all :: "string list \<Rightarrow> bool \<Rightarrow> bool" where
  "force_add_all files force_archive_contents = (length files = 1 \<or> force_archive_contents)"

definition initial_state :: "env \<Rightarrow> link_state" where
  "initial_state e =
     \<lparr> unresolved_symbols = set (map (drop 1) (EXPORTED_FUNCTIONS e)),
       resolved_symbols = {},
       added_contents = {},
       actual_files = [],
       warnings = [] \<rparr>"

definition log_warning :: "string \<Rightarrow> link_state \<Rightarrow> link_state" where
  "log_warning w st = st\<lparr>warnings := warnings st @ [w]\<rparr>"

text \<open>
  \<^verbatim>\<open>consider_object(f, force_add)\<close>: returns whether the object was added, and the
  updated state.
\<close>

definition consider_object :: "env \<Rightarrow> string \<Rightarrow> bool \<Rightarrow> link_state \<Rightarrow> bool \<times> link_state" where
  "consider_object e f force_add st =
     (let new_symbols = llvm_nm e f in
      if \<not> is_valid_for_nm new_symbols then
        (False, log_warning (''object '' @ f @ '' is not valid according to llvm-nm, cannot link'') st)
      else if \<not> is_bitcode e f then
        (False, log_warning (''object '' @ f @ '' is not LLVM bitcode, cannot link'') st)
      else
        let provided = defs new_symbols \<union> commons new_symbols;
            do_add = (force_add \<or> unresolved_symbols st \<inter> provided \<noteq> {})
        in if do_add then
             let resolved' = resolved_symbols st \<union> provided;
                 unresolved' = (unresolved_symbols st \<union> (undefs new_symbols - resolved')) - provided
             in (True, st\<lparr> resolved_symbols := resolved',
                           unresolved_symbols := unresolved',
                           actual_files := actual_files st @ [f] \<rparr>)
           else (False, st))"

text \<open>
  One run of the \<^verbatim>\<open>for content in contents\<close> loop of \<^verbatim>\<open>consider_archive\<close>. The loop
  variables are \<^verbatim>\<open>loop_again\<close>, \<^verbatim>\<open>added_any_objects\<close> and the shared state.
\<close>

fun archive_for :: "env \<Rightarrow> bool \<Rightarrow> string list \<Rightarrow> bool \<times> bool \<times> link_state \<Rightarrow> bool \<times> bool \<times> link_state" where
  "archive_for e force [] s = s"
| "archive_for e force (content # rest) (loop_again, added_any, st) =
     (if content \<in> added_contents st then archive_for e force rest (loop_again, added_any, st)
      else case consider_object e content force st of
             (True, st') \<Rightarrow>
               archive_for e force rest
                 (True, True, st'\<lparr>added_contents := insert content (added_contents st')\<rparr>)
           | (False, st') \<Rightarrow> archive_for e force rest (loop_again, added_any, st'))"

subsubsection \<open>One pass over an archive adds members only\<close>

lemma consider_object_added_contents:
  "added_contents (snd (consider_object e f force st)) = added_contents st"
  by (simp add: consider_object_def log_warning_def Let_def)

lemma archive_for_added_contents:
  "archive_for e force cs (la, aa, st) = (la', aa', st') \<Longrightarrow>
     added_contents st \<subseteq> added_contents st' \<and>
     added_contents st' \<subseteq> added_contents st \<union> set cs \<and>
     (la' \<longrightarrow> la \<or> added_contents st \<subset> added_contents st') \<and>
     (aa' \<longrightarrow> aa \<or> added_contents st \<subset> added_contents st')"
proof (induction cs arbitrary: la aa st)
  case Nil
  then show ?case by simp
next
  case (Cons c cs)
  show ?case
  proof (cases "c \<in> added_contents st")
    case True
    with Cons.prems have "archive_for e force cs (la, aa, st) = (la', aa', st')" by simp
    from Cons.IH [OF this] show ?thesis by auto
  next
    case False
    obtain b st1 where co: "consider_object e c force st = (b, st1)"
      by (cases "consider_object e c force st")
    then have ac: "added_contents st1 = added_contents st"
      using consider_object_added_contents [of e c force st] by simp
    show ?thesis
    proof (cases b)
      case True
      with Cons.prems False co
      have "archive_for e force cs (True, True, st1\<lparr>added_contents := insert c (added_contents st1)\<rparr>)
              = (la', aa', st')" by simp
      from Cons.IH [OF this] ac False show ?thesis by auto
    next
      case b: False
      with Cons.prems False co
      have "archive_for e force cs (la, aa, st1) = (la', aa', st')" by simp
      from Cons.IH [OF this] ac show ?thesis by auto
    qed
  qed
qed

lemma archive_for_measure:
  assumes "archive_for e force cs (False, aa, st) = (True, aa', st')"
  shows "card (set cs - added_contents st') < card (set cs - added_contents st)"
proof -
  from archive_for_added_contents [OF assms]
  have sub: "added_contents st \<subset> added_contents st'"
    and bound: "added_contents st' \<subseteq> added_contents st \<union> set cs" by auto
  then have "set cs - added_contents st' \<subset> set cs - added_contents st" by blast
  then show ?thesis by (simp add: psubset_card_mono)
qed

subsubsection \<open>The loops of consider_archive and scan_archive_group\<close>

text \<open>
  The \<^verbatim>\<open>while loop_again\<close> loop of \<^verbatim>\<open>consider_archive\<close>. Every pass that asks for
  another one has put a member of the archive into \<^verbatim>\<open>added_contents\<close> that was not
  there, so the number of members outside \<^verbatim>\<open>added_contents\<close> decreases.
\<close>

function consider_archive_while :: "env \<Rightarrow> bool \<Rightarrow> string list \<Rightarrow> bool \<times> link_state \<Rightarrow> bool \<times> link_state" where
  "consider_archive_while e force contents (added_any, st) =
     (case archive_for e force contents (False, added_any, st) of
        (loop_again, added_any', st') \<Rightarrow>
          if loop_again then consider_archive_while e force contents (added_any', st')
          else (added_any', st'))"
  by pat_completeness auto
termination
proof (relation "measure (\<lambda>(e, force, contents, added_any, st). card (set contents - added_contents st))", goal_cases)
  case 1
  show ?case by simp
next
  case (2 e force contents added_any st x xa y ya)
  then have "archive_for e force contents (False, added_any, st) = (True, y, ya)"
    by simp
  from archive_for_measure [OF this] show ?case by simp
qed

declare consider_archive_while.simps [simp del]

lemma consider_archive_while_again:
  "archive_for e force cs (False, aa, st) = (True, aa1, st1) \<Longrightarrow>
     consider_archive_while e force cs (aa, st) = consider_archive_while e force cs (aa1, st1)"
  by (subst consider_archive_while.simps) simp

lemma consider_archive_while_stop:
  "archive_for e force cs (False, aa, st) = (False, aa1, st1) \<Longrightarrow>
     consider_archive_while e force cs (aa, st) = (aa1, st1)"
  by (subst consider_archive_while.simps) simp

lemma consider_archive_while_added_contents:
  "consider_archive_while e force cs (aa, st) = (aa', st') \<Longrightarrow>
     added_contents st \<subseteq> added_contents st' \<and>
     added_contents st' \<subseteq> added_contents st \<union> set cs \<and>
     (aa' \<longrightarrow> aa \<or> added_contents st \<subset> added_contents st')"
proof (induction e force cs "(aa, st)" arbitrary: aa st rule: consider_archive_while.induct)
  case (1 e force cs aa st)
  obtain la aa1 st1 where pass: "archive_for e force cs (False, aa, st) = (la, aa1, st1)"
    by (cases "archive_for e force cs (False, aa, st)")
  note mono = archive_for_added_contents [OF pass]
  show ?case
  proof (cases la)
    case True
    with "1.prems" pass have "consider_archive_while e force cs (aa1, st1) = (aa', st')"
      by (simp add: consider_archive_while_again)
    from "1.hyps" [OF pass [symmetric] refl True this] mono show ?thesis
      by auto
  next
    case False
    with "1.prems" pass have "aa' = aa1" "st' = st1"
      by (simp_all add: consider_archive_while_stop)
    with mono show ?thesis by simp
  qed
qed

text \<open>
  \<^verbatim>\<open>consider_archive(f)\<close>. The dictionary lookup \<^verbatim>\<open>Building.ar_contents[f]\<close> raises
  \<^verbatim>\<open>KeyError\<close> for a path that is not a key.
\<close>

definition consider_archive :: "env \<Rightarrow> bool \<Rightarrow> string \<Rightarrow> link_state \<Rightarrow> error + bool \<times> link_state" where
  "consider_archive e force f st =
     (case ar_contents e f of
        None \<Rightarrow> Inl (KeyError f)
      | Some contents \<Rightarrow> Inr (consider_archive_while e force contents (False, st)))"

text \<open>One run of the \<^verbatim>\<open>for archive in group\<close> loop of \<^verbatim>\<open>scan_archive_group\<close>.\<close>

fun group_for :: "env \<Rightarrow> bool \<Rightarrow> string list \<Rightarrow> bool \<times> link_state \<Rightarrow> error + bool \<times> link_state" where
  "group_for e force [] s = Inr s"
| "group_for e force (archive # rest) (loop_again, st) =
     (case consider_archive e force archive st of
        Inl err \<Rightarrow> Inl err
      | Inr (added, st') \<Rightarrow> group_for e force rest (if added then True else loop_again, st'))"

text \<open>The members of all archives of a group (no members for a path that is not a key).\<close>

definition group_members :: "env \<Rightarrow> string list \<Rightarrow> string set" where
  "group_members e grp =
     (\<Union>a \<in> set grp. case ar_contents e a of None \<Rightarrow> {} | Some contents \<Rightarrow> set contents)"

lemma group_members_finite: "finite (group_members e grp)"
  by (auto simp: group_members_def split: option.splits)

lemma group_members_Cons:
  "group_members e (a # g) =
     (case ar_contents e a of None \<Rightarrow> {} | Some contents \<Rightarrow> set contents) \<union> group_members e g"
  by (simp add: group_members_def)

lemma group_for_added_contents:
  "group_for e force g (la, st) = Inr (la', st') \<Longrightarrow>
     added_contents st \<subseteq> added_contents st' \<and>
     added_contents st' \<subseteq> added_contents st \<union> group_members e g \<and>
     (la' \<longrightarrow> la \<or> added_contents st \<subset> added_contents st')"
proof (induction g arbitrary: la st)
  case Nil
  then show ?case by simp
next
  case (Cons a g)
  from Cons.prems obtain added st1 where
    ca: "consider_archive e force a st = Inr (added, st1)" and
    rest: "group_for e force g (if added then True else la, st1) = Inr (la', st')"
    by (auto split: sum.splits)
  from ca obtain cs where cs: "ar_contents e a = Some cs"
    and w: "consider_archive_while e force cs (False, st) = (added, st1)"
    by (auto simp: consider_archive_def split: option.splits)
  from consider_archive_while_added_contents [OF w]
  have 1: "added_contents st \<subseteq> added_contents st1"
    "added_contents st1 \<subseteq> added_contents st \<union> set cs"
    "added \<longrightarrow> added_contents st \<subset> added_contents st1" by auto
  from Cons.IH [OF rest]
  have 2: "added_contents st1 \<subseteq> added_contents st'"
    "added_contents st' \<subseteq> added_contents st1 \<union> group_members e g"
    "la' \<longrightarrow> (if added then True else la) \<or> added_contents st1 \<subset> added_contents st'" by auto
  have "added_contents st \<subseteq> added_contents st'" using 1 2 by blast
  moreover have "added_contents st' \<subseteq> added_contents st \<union> group_members e (a # g)"
    using 1 2 cs by (auto simp: group_members_Cons)
  moreover have "la' \<longrightarrow> la \<or> added_contents st \<subset> added_contents st'"
    using 1 2 by (cases added) auto
  ultimately show ?case by blast
qed

lemma group_for_measure:
  assumes "group_for e force g (False, st) = Inr (True, st')"
  shows "card (group_members e g - added_contents st') < card (group_members e g - added_contents st)"
proof -
  from group_for_added_contents [OF assms]
  have "added_contents st \<subset> added_contents st'"
    and "added_contents st' \<subseteq> added_contents st \<union> group_members e g" by auto
  then have "group_members e g - added_contents st' \<subset> group_members e g - added_contents st"
    by blast
  then show ?thesis by (simp add: psubset_card_mono group_members_finite)
qed

text \<open>
  \<^verbatim>\<open>scan_archive_group(group)\<close>: the group is scanned again as long as a scan has added
  an object. A scan that asks for another one has put a member of one of the group's
  archives into \<^verbatim>\<open>added_contents\<close>.
\<close>

function scan_archive_group :: "env \<Rightarrow> bool \<Rightarrow> string list \<Rightarrow> link_state \<Rightarrow> error + link_state" where
  "scan_archive_group e force grp st =
     (case group_for e force grp (False, st) of
        Inl err \<Rightarrow> Inl err
      | Inr (loop_again, st') \<Rightarrow>
          if loop_again then scan_archive_group e force grp st' else Inr st')"
  by pat_completeness auto
termination
proof (relation "measure (\<lambda>(e, force, grp, st). card (group_members e grp - added_contents st))", goal_cases)
  case 1
  show ?case by simp
next
  case (2 e force grp st x xa y)
  then have "group_for e force grp (False, st) = Inr (True, y)"
    by simp
  from group_for_measure [OF this] show ?case by simp
qed

declare scan_archive_group.simps [simp del]

lemma scan_archive_group_again:
  "group_for e force grp (False, st) = Inr (True, st1) \<Longrightarrow>
     scan_archive_group e force grp st = scan_archive_group e force grp st1"
  by (subst scan_archive_group.simps) simp

lemma scan_archive_group_stop:
  "group_for e force grp (False, st) = Inr (False, st1) \<Longrightarrow>
     scan_archive_group e force grp st = Inr st1"
  by (subst scan_archive_group.simps) simp

lemma scan_archive_group_error:
  "group_for e force grp (False, st) = Inl err \<Longrightarrow>
     scan_archive_group e force grp st = Inl err"
  by (subst scan_archive_group.simps) simp

subsubsection \<open>The main loop\<close>

text \<open>
  The body of the main \<^verbatim>\<open>for f in files\<close> loop of \<^verbatim>\<open>link\<close>. The loop variables are
  \<^verbatim>\<open>current_archive_group\<close> (\<^verbatim>\<open>None\<close> or a list) and the shared state; a failed
  \<^verbatim>\<open>assert\<close> ends the link with an error.
\<close>

definition link_step :: "env \<Rightarrow> bool \<Rightarrow> bool \<Rightarrow> string \<Rightarrow> string list option \<times> link_state
    \<Rightarrow> error + string list option \<times> link_state" where
  "link_step e has_ar_v force f s =
     (case s of (current_archive_group, st) \<Rightarrow>
      let absolute_path_f = make_paths_absolute e f in
      if startswith_dash f then
        if f \<in> set [''--start-group'', ''-(''] then
          (case current_archive_group of
             None \<Rightarrow> Inr (Some [], st)
           | Some _ \<Rightarrow> Inl NestedStartGroup)
        else if f \<in> set [''--end-group'', ''-)''] then
          (case current_archive_group of
             None \<Rightarrow> Inl EndGroupWithoutStartGroup
           | Some grp \<Rightarrow>
               (case scan_archive_group e force grp st of
                  Inl err \<Rightarrow> Inl err
                | Inr st' \<Rightarrow> Inr (None, st')))
        else Inl (UnsupportedLinkFlag f)
      else if \<not> is_ar e absolute_path_f then
        if is_bitcode e absolute_path_f then
          if has_ar_v then Inr (current_archive_group, snd (consider_object e absolute_path_f True st))
          else Inr (current_archive_group, st\<lparr>actual_files := actual_files st @ [f]\<rparr>)
        else Inr (current_archive_group, st)
      else
        (case consider_archive e force absolute_path_f st of
           Inl err \<Rightarrow> Inl err
         | Inr (added, st') \<Rightarrow>
             Inr (case current_archive_group of
                    None \<Rightarrow> None
                  | Some grp \<Rightarrow> Some (grp @ [absolute_path_f]), st')))"

fun link_for :: "env \<Rightarrow> bool \<Rightarrow> bool \<Rightarrow> string list \<Rightarrow> string list option \<times> link_state
    \<Rightarrow> error + string list option \<times> link_state" where
  "link_for e has_ar_v force [] s = Inr s"
| "link_for e has_ar_v force (f # files) s =
     (case link_step e has_ar_v force f s of
        Inl err \<Rightarrow> Inl err
      | Inr s' \<Rightarrow> link_for e has_ar_v force files s')"

text \<open>
  The scan of \<^verbatim>\<open>link\<close> up to the rescan of a group that was left open:
  \<^verbatim>\<open>if current_archive_group:\<close> holds for a list that is not empty.
\<close>

definition link_scan :: "env \<Rightarrow> string list \<Rightarrow> bool \<Rightarrow> error + link_state" where
  "link_scan e files force_archive_contents =
     (let force = force_add_all files force_archive_contents in
      case link_for e (has_ar e files) force files (None, initial_state e) of
        Inl err \<Rightarrow> Inl err
      | Inr (current_archive_group, st) \<Rightarrow>
          (case current_archive_group of
             Some (a # grp) \<Rightarrow> scan_archive_group e force (a # grp) st
           | _ \<Rightarrow> Inr st))"

text \<open>The list of files to link: \<^verbatim>\<open>actual_files = unique_ordered(actual_files)\<close>.\<close>

definition resolve :: "env \<Rightarrow> string list \<Rightarrow> bool \<Rightarrow> error + string list" where
  "resolve e files force_archive_contents =
     (case link_scan e files force_archive_contents of
        Inl err \<Rightarrow> Inl err
      | Inr st \<Rightarrow> Inr (unique_ordered (actual_files st)))"



subsubsection \<open>The rescan loops as while loops\<close>

text \<open>
  The two loops written with the \<open>while\<close> combinator, as the source has them: the
  state of the loop of \<^verbatim>\<open>consider_archive\<close> is \<^verbatim>\<open>(loop_again, added_any_objects)\<close>
  and the shared state, the loop starts with \<^verbatim>\<open>loop_again = True\<close>, and the body is one
  \<^verbatim>\<open>for\<close> loop over the members. \<open>while_option\<close> is \<open>None\<close> for a loop that does not
  end. In the loop of \<^verbatim>\<open>scan_archive_group\<close> an exception leaves the loop.
\<close>

definition consider_archive_loop :: "env \<Rightarrow> bool \<Rightarrow> string list \<Rightarrow> link_state
    \<Rightarrow> (bool \<times> bool \<times> link_state) option" where
  "consider_archive_loop e force contents st =
     while_option (\<lambda>(loop_again, added_any, st). loop_again)
       (\<lambda>(loop_again, added_any, st). archive_for e force contents (False, added_any, st))
       (True, False, st)"

definition scan_archive_group_loop :: "env \<Rightarrow> bool \<Rightarrow> string list \<Rightarrow> link_state
    \<Rightarrow> (error + bool \<times> link_state) option" where
  "scan_archive_group_loop e force grp st =
     while_option (\<lambda>s. case s of Inl err \<Rightarrow> False | Inr (loop_again, st) \<Rightarrow> loop_again)
       (\<lambda>s. case s of Inl err \<Rightarrow> Inl err | Inr (loop_again, st) \<Rightarrow> group_for e force grp (False, st))
       (Inr (True, st))"

section \<open>Building.parse_symbols\<close>


text \<open>
  \<^verbatim>\<open>s.upper()\<close> on the text the symbol tool prints (ASCII): the letters \<^verbatim>\<open>a\<close> to \<^verbatim>\<open>z\<close>
  (codes 97 to 122) become \<^verbatim>\<open>A\<close> to \<^verbatim>\<open>Z\<close>, every other character stays. The code of
  an upper-case letter is that of the lower-case letter minus 32, that is, with the bit
  of value 32 cleared.
\<close>

definition is_lower :: "char \<Rightarrow> bool" where
  "is_lower c = (97 \<le> (of_char c :: nat) \<and> (of_char c :: nat) \<le> 122)"

definition upper_char :: "char \<Rightarrow> char" where
  "upper_char c =
     (if is_lower c
      then (case c of Char b0 b1 b2 b3 b4 b5 b6 b7 \<Rightarrow> Char b0 b1 b2 b3 b4 False b6 b7)
      else c)"




section \<open>Building.metadce: roots and imports of the graph\<close>

text \<open>
  An item of the graph that the JS optimizer emits, a JSON object: its name, the names
  it reaches, and the optional keys \<^verbatim>\<open>root\<close>, \<^verbatim>\<open>export\<close> (a name) and \<^verbatim>\<open>import\<close>
  (a list, module and name). The settings that \<^verbatim>\<open>metadce\<close> reads are
  \<^verbatim>\<open>Settings.WASM_BACKEND\<close>, \<^verbatim>\<open>Settings.EXPORT_ALL\<close> and
  \<^verbatim>\<open>Building.user_requested_exports\<close>.
\<close>

record dce_item =
  item_name :: string
  item_reaches :: "string list"
  item_root :: "bool option"
  item_export :: "string option"
  item_import :: "string list option"

record dce_settings =
  WASM_BACKEND :: bool
  EXPORT_ALL :: bool
  user_requested_exports :: "string list"

text \<open>The body of the first loop over the graph.\<close>

definition mark_root :: "dce_settings \<Rightarrow> dce_item \<Rightarrow> dce_item" where
  "mark_root s item =
     (case item_export item of
        None \<Rightarrow> item
      | Some export \<Rightarrow>
          let export = (if WASM_BACKEND s then ''_'' @ export else export) in
          if export \<in> set (user_requested_exports s) \<or> EXPORT_ALL s
          then item\<lparr>item_root := Some True\<rparr>
          else item)"

text \<open>
  The body of the second loop, which runs for the wasm backend only. Indexing a list
  or a string out of its range raises \<^verbatim>\<open>IndexError\<close>.
\<close>

definition strip_import :: "dce_item \<Rightarrow> error + dce_item" where
  "strip_import item =
     (case item_import item of
        None \<Rightarrow> Inr item
      | Some imp \<Rightarrow>
          if length imp \<le> 1 then Inl IndexError
          else if imp ! 1 = [] then Inl IndexError
          else if hd (imp ! 1) = CHR ''_''
            then Inr (item\<lparr>item_import := Some (imp[1 := drop 1 (imp ! 1)])\<rparr>)
          else Inr item)"

fun strip_imports :: "dce_item list \<Rightarrow> error + dce_item list" where
  "strip_imports [] = Inr []"
| "strip_imports (item # graph) =
     (case strip_import item of
        Inl err \<Rightarrow> Inl err
      | Inr item' \<Rightarrow>
          (case strip_imports graph of
             Inl err \<Rightarrow> Inl err
           | Inr graph' \<Rightarrow> Inr (item' # graph')))"

text \<open>The graph that \<^verbatim>\<open>metadce\<close> writes for the pruning tool.\<close>

definition metadce_graph :: "dce_settings \<Rightarrow> dce_item list \<Rightarrow> error + dce_item list" where
  "metadce_graph s graph =
     (let graph = map (mark_root s) graph in
      if WASM_BACKEND s then strip_imports graph else Inr graph)"

section \<open>Extracting an archive\<close>

text \<open>
  The loop of \<^verbatim>\<open>warn_if_duplicate_entries\<close>: \<open>entry\<close> is \<^verbatim>\<open>curr\<close>, the entry at index \<open>i\<close> and
  \<open>rest\<close> the entries after it (\<^verbatim>\<open>archive_contents[i + 1:]\<close>). The result lists the
  entries for which a \<^verbatim>\<open>duplicate:\<close> warning is logged, in order.
\<close>

fun duplicate_entries :: "string set \<Rightarrow> string list \<Rightarrow> string list" where
  "duplicate_entries warned [] = []"
| "duplicate_entries warned (entry # rest) =
     (if entry \<notin> warned \<and> entry \<in> set rest
      then entry # duplicate_entries (insert entry warned) rest
      else duplicate_entries warned rest)"









section \<open>Notions used in the statements\<close>

text \<open>The symbols an object provides, and the test that \<^verbatim>\<open>consider_object\<close> makes.\<close>

definition provided :: "env \<Rightarrow> string \<Rightarrow> string set" where
  "provided e f = defs (llvm_nm e f) \<union> commons (llvm_nm e f)"

definition valid_object :: "env \<Rightarrow> string \<Rightarrow> bool" where
  "valid_object e f = (is_valid_for_nm (llvm_nm e f) \<and> is_bitcode e f)"

definition wanted :: "env \<Rightarrow> bool \<Rightarrow> string set \<Rightarrow> string \<Rightarrow> bool" where
  "wanted e force unresolved f = (valid_object e f \<and> (force \<or> unresolved \<inter> provided e f \<noteq> {}))"

text \<open>Two states that differ in the logged warnings only.\<close>

definition same_link :: "link_state \<Rightarrow> link_state \<Rightarrow> bool" where
  "same_link st st' =
     (unresolved_symbols st' = unresolved_symbols st \<and>
      resolved_symbols st' = resolved_symbols st \<and>
      added_contents st' = added_contents st \<and>
      actual_files st' = actual_files st)"

text \<open>
  A property of the state is kept by the scan when \<^verbatim>\<open>consider_object\<close> keeps it for
  every candidate object of a set \<open>C\<close>, and recording an object that was just added
  in \<^verbatim>\<open>added_contents\<close> keeps it as well.
\<close>

definition closed_under :: "env \<Rightarrow> string set \<Rightarrow> (link_state \<Rightarrow> bool) \<Rightarrow> bool" where
  "closed_under e C P =
     (\<forall>c \<in> C. \<forall>force st. P st \<longrightarrow>
        P (snd (consider_object e c force st)) \<and>
        (fst (consider_object e c force st) \<longrightarrow>
           P ((snd (consider_object e c force st))
                \<lparr>added_contents := insert c (added_contents (snd (consider_object e c force st)))\<rparr>)))"

text \<open>
  The main loop keeps such a property too; when no input is an archive the loop
  appends to \<^verbatim>\<open>actual_files\<close> directly, which has to keep the property as well.
\<close>

definition append_closed :: "(link_state \<Rightarrow> bool) \<Rightarrow> bool" where
  "append_closed P = (\<forall>f st. P st \<longrightarrow> P (st\<lparr>actual_files := actual_files st @ [f]\<rparr>))"

definition is_start_group :: "string \<Rightarrow> bool" where
  "is_start_group f = (f \<in> set [''--start-group'', ''-(''])"

definition is_end_group :: "string \<Rightarrow> bool" where
  "is_end_group f = (f \<in> set [''--end-group'', ''-)''])"

definition symbols_disjoint :: "link_state \<Rightarrow> bool" where
  "symbols_disjoint st = (unresolved_symbols st \<inter> resolved_symbols st = {})"

text \<open>
  The members of an archive are settled in a state when none of those that are not yet in
  \<^verbatim>\<open>added_contents\<close> would be added by \<^verbatim>\<open>consider_object\<close>.
\<close>

definition settled :: "env \<Rightarrow> bool \<Rightarrow> string list \<Rightarrow> link_state \<Rightarrow> bool" where
  "settled e force cs st =
     (\<forall>c \<in> set cs. c \<notin> added_contents st \<longrightarrow> \<not> wanted e force (unresolved_symbols st) c)"

definition group_settled :: "env \<Rightarrow> bool \<Rightarrow> string list \<Rightarrow> link_state \<Rightarrow> bool" where
  "group_settled e force grp st =
     (\<forall>a \<in> set grp. \<forall>cs. ar_contents e a = Some cs \<longrightarrow> settled e force cs st)"

text \<open>
  While every file is added by \<^verbatim>\<open>consider_object\<close>: the members recorded in
  \<^verbatim>\<open>added_contents\<close> are among the files to link, the files to link are candidates of
  \<open>S\<close>, every resolved symbol is provided by a file to link, every symbol a linked file
  needs is unresolved or resolved, and so is every symbol of \<open>X\<close>.
\<close>

definition linked_inv :: "env \<Rightarrow> string set \<Rightarrow> string set \<Rightarrow> link_state \<Rightarrow> bool" where
  "linked_inv e S X st =
     (added_contents st \<subseteq> set (actual_files st) \<and>
      set (actual_files st) \<subseteq> S \<and>
      resolved_symbols st \<subseteq> (\<Union>c \<in> set (actual_files st). provided e c) \<and>
      (\<forall>c \<in> set (actual_files st). undefs (llvm_nm e c) \<subseteq> unresolved_symbols st \<union> resolved_symbols st) \<and>
      X \<subseteq> unresolved_symbols st \<union> resolved_symbols st)"

text \<open>The members recorded in \<^verbatim>\<open>added_contents\<close> are among the files to link.\<close>

definition added_linked :: "link_state \<Rightarrow> bool" where
  "added_linked st = (added_contents st \<subseteq> set (actual_files st))"


text \<open>The state after \<^verbatim>\<open>consider_object\<close> has added an object.\<close>

definition add_object :: "env \<Rightarrow> string \<Rightarrow> link_state \<Rightarrow> link_state" where
  "add_object e f st =
     st\<lparr> resolved_symbols := resolved_symbols st \<union> provided e f,
         unresolved_symbols :=
           (unresolved_symbols st \<union> (undefs (llvm_nm e f) - (resolved_symbols st \<union> provided e f)))
             - provided e f,
         actual_files := actual_files st @ [f] \<rparr>"






section \<open>Example inputs\<close>

text \<open>
  A program \<^verbatim>\<open>main.o\<close> and an archive \<^verbatim>\<open>libfoo.a\<close> with the members \<^verbatim>\<open>foo.o\<close>
  (defines \<^verbatim>\<open>foo\<close>, needs \<^verbatim>\<open>bar\<close>) and \<^verbatim>\<open>baz.o\<close> (defines \<^verbatim>\<open>bar\<close>); the
  symbol tool fails on every other file.
\<close>

definition symbols :: "string set \<Rightarrow> string set \<Rightarrow> string set \<Rightarrow> ObjectFileInfo" where
  "symbols ds us cs = \<lparr>returncode = 0, tool_output = None, defs = ds, undefs = us, commons = cs\<rparr>"

definition nm_failure :: ObjectFileInfo where
  "nm_failure = \<lparr>returncode = 1, tool_output = Some ''error'', defs = {}, undefs = {}, commons = {}\<rparr>"

definition app_nm :: "string \<Rightarrow> ObjectFileInfo" where
  "app_nm f =
     (if f = ''/main.o'' then symbols {''main''} {''foo''} {}
      else if f = ''/tmp/foo.o'' then symbols {''foo''} {''bar''} {}
      else if f = ''/tmp/baz.o'' then symbols {''bar''} {} {}
      else nm_failure)"

definition app_env :: env where
  "app_env =
     \<lparr> abspath = (\<lambda>f. CHR ''/'' # f),
       is_ar = (\<lambda>f. f = ''/libfoo.a''),
       is_bitcode = (\<lambda>f. f \<noteq> ''/notes.txt''),
       llvm_nm = app_nm,
       ar_contents = [''/libfoo.a'' \<mapsto> [''/tmp/foo.o'', ''/tmp/baz.o'']],
       EXPORTED_FUNCTIONS = [''_main''] \<rparr>"

text \<open>The example link after \<^verbatim>\<open>main.o\<close> was added, and after the archive was scanned.\<close>

definition app_after_main :: link_state where
  "app_after_main =
     \<lparr> unresolved_symbols = {''foo''}, resolved_symbols = {''main''}, added_contents = {},
       actual_files = [''/main.o''], warnings = [] \<rparr>"

definition app_after_libfoo :: link_state where
  "app_after_libfoo =
     \<lparr> unresolved_symbols = {}, resolved_symbols = {''main'', ''foo'', ''bar''},
       added_contents = {''/tmp/foo.o'', ''/tmp/baz.o''},
       actual_files = [''/main.o'', ''/tmp/foo.o'', ''/tmp/baz.o''], warnings = [] \<rparr>"

text \<open>
  Two archives whose members need each other: \<^verbatim>\<open>ping.o\<close> of \<^verbatim>\<open>libping.a\<close> defines
  \<^verbatim>\<open>ping\<close> and needs \<^verbatim>\<open>pong\<close>, \<^verbatim>\<open>pong.o\<close> of \<^verbatim>\<open>libpong.a\<close> defines \<^verbatim>\<open>pong\<close> and
  needs \<^verbatim>\<open>ping\<close>; the link starts from \<^verbatim>\<open>pong\<close>.
\<close>

definition cycle_nm :: "string \<Rightarrow> ObjectFileInfo" where
  "cycle_nm f =
     (if f = ''/tmp/ping.o'' then symbols {''ping''} {''pong''} {}
      else if f = ''/tmp/pong.o'' then symbols {''pong''} {''ping''} {}
      else nm_failure)"

definition cycle_env :: env where
  "cycle_env =
     \<lparr> abspath = (\<lambda>f. CHR ''/'' # f),
       is_ar = (\<lambda>f. f = ''/libping.a'' \<or> f = ''/libpong.a''),
       is_bitcode = (\<lambda>f. True),
       llvm_nm = cycle_nm,
       ar_contents = [''/libping.a'' \<mapsto> [''/tmp/ping.o''], ''/libpong.a'' \<mapsto> [''/tmp/pong.o'']],
       EXPORTED_FUNCTIONS = [''_pong''] \<rparr>"

text \<open>
  \<^verbatim>\<open>libb.a\<close> holds \<^verbatim>\<open>b.o\<close>, which defines \<^verbatim>\<open>helper\<close> and needs \<^verbatim>\<open>f\<close>;
  \<^verbatim>\<open>liba.a\<close> holds \<^verbatim>\<open>a.o\<close>, which defines \<^verbatim>\<open>f\<close>; the link starts from \<^verbatim>\<open>f\<close>.
\<close>

definition order_nm :: "string \<Rightarrow> ObjectFileInfo" where
  "order_nm p =
     (if p = ''/tmp/a.o'' then symbols {''f''} {} {}
      else if p = ''/tmp/b.o'' then symbols {''helper''} {''f''} {}
      else nm_failure)"

definition order_env :: env where
  "order_env =
     \<lparr> abspath = (\<lambda>p. CHR ''/'' # p),
       is_ar = (\<lambda>p. p = ''/liba.a'' \<or> p = ''/libb.a''),
       is_bitcode = (\<lambda>p. True),
       llvm_nm = order_nm,
       ar_contents = [''/liba.a'' \<mapsto> [''/tmp/a.o''], ''/libb.a'' \<mapsto> [''/tmp/b.o'']],
       EXPORTED_FUNCTIONS = [''_f''] \<rparr>"


text \<open>
  A graph with a requested export, an export that was not requested, and an import,
  for the wasm backend.
\<close>

definition dce_example :: "dce_item list" where
  "dce_example =
     [ \<lparr> item_name = ''emcc$export$main'', item_reaches = [], item_root = None,
         item_export = Some ''main'', item_import = None \<rparr>,
       \<lparr> item_name = ''emcc$export$helper'', item_reaches = [], item_root = None,
         item_export = Some ''helper'', item_import = None \<rparr>,
       \<lparr> item_name = ''emcc$import$_puts'', item_reaches = [], item_root = None,
         item_export = None, item_import = Some [''env'', ''_puts''] \<rparr> ]"

definition dce_wasm :: dce_settings where
  "dce_wasm = \<lparr> WASM_BACKEND = True, EXPORT_ALL = False, user_requested_exports = [''_main''] \<rparr>"

definition dce_example_marked :: "dce_item list" where
  "dce_example_marked =
     [ \<lparr> item_name = ''emcc$export$main'', item_reaches = [], item_root = Some True,
         item_export = Some ''main'', item_import = None \<rparr>,
       \<lparr> item_name = ''emcc$export$helper'', item_reaches = [], item_root = None,
         item_export = Some ''helper'', item_import = None \<rparr>,
       \<lparr> item_name = ''emcc$import$_puts'', item_reaches = [], item_root = None,
         item_export = None, item_import = Some [''env'', ''puts''] \<rparr> ]"


section \<open>Properties of the link scan\<close>

subsection \<open>What consider_object decides\<close>

lemma same_link_refl: "same_link st st"
  by (simp add: same_link_def)

lemma same_link_trans: "same_link st st' \<Longrightarrow> same_link st' st'' \<Longrightarrow> same_link st st''"
  by (simp add: same_link_def)

lemma consider_object_fst:
  "fst (consider_object e f force st) = wanted e force (unresolved_symbols st) f"
  by (auto simp: consider_object_def wanted_def valid_object_def provided_def Let_def)

lemma consider_object_rejected:
  "\<not> wanted e force (unresolved_symbols st) f \<Longrightarrow> same_link st (snd (consider_object e f force st))"
  by (auto simp: consider_object_def wanted_def valid_object_def provided_def Let_def
      same_link_def log_warning_def)

lemma consider_object_accepted:
  assumes "wanted e force (unresolved_symbols st) f"
  shows "consider_object e f force st =
    (True, st\<lparr> resolved_symbols := resolved_symbols st \<union> provided e f,
               unresolved_symbols :=
                 (unresolved_symbols st \<union> (undefs (llvm_nm e f) - (resolved_symbols st \<union> provided e f)))
                   - provided e f,
               actual_files := actual_files st @ [f] \<rparr>)"
  using assms
  by (auto simp: consider_object_def wanted_def valid_object_def provided_def Let_def)

subsection \<open>Properties kept by every step\<close>

lemma closed_underD1:
  "closed_under e C P \<Longrightarrow> c \<in> C \<Longrightarrow> P st \<Longrightarrow> consider_object e c force st = (b, st') \<Longrightarrow> P st'"
  unfolding closed_under_def by (metis snd_conv)

lemma closed_underD2:
  "closed_under e C P \<Longrightarrow> c \<in> C \<Longrightarrow> P st \<Longrightarrow> consider_object e c force st = (True, st')
    \<Longrightarrow> P (st'\<lparr>added_contents := insert c (added_contents st')\<rparr>)"
  unfolding closed_under_def by (metis fst_conv snd_conv)

lemma closed_under_mono: "closed_under e C P \<Longrightarrow> D \<subseteq> C \<Longrightarrow> closed_under e D P"
  unfolding closed_under_def by blast

lemma archive_for_closed:
  assumes cl: "closed_under e C P"
  shows "set cs \<subseteq> C \<Longrightarrow> P st \<Longrightarrow> archive_for e force cs (la, aa, st) = (la', aa', st') \<Longrightarrow> P st'"
proof (induction cs arbitrary: la aa st)
  case Nil
  then show ?case by simp
next
  case (Cons c cs)
  from Cons.prems have cC: "c \<in> C" and csC: "set cs \<subseteq> C" by auto
  show ?case
  proof (cases "c \<in> added_contents st")
    case True
    with Cons.prems have "archive_for e force cs (la, aa, st) = (la', aa', st')" by simp
    from Cons.IH [OF csC Cons.prems(2) this] show ?thesis .
  next
    case False
    obtain b st1 where co: "consider_object e c force st = (b, st1)"
      by (cases "consider_object e c force st")
    show ?thesis
    proof (cases b)
      case True
      with Cons.prems False co
      have run: "archive_for e force cs (True, True, st1\<lparr>added_contents := insert c (added_contents st1)\<rparr>)
              = (la', aa', st')" by simp
      from closed_underD2 [OF cl cC Cons.prems(2)] co True
      have "P (st1\<lparr>added_contents := insert c (added_contents st1)\<rparr>)" by simp
      from Cons.IH [OF csC this run] show ?thesis .
    next
      case b: False
      with Cons.prems False co
      have run: "archive_for e force cs (la, aa, st1) = (la', aa', st')" by simp
      from closed_underD1 [OF cl cC Cons.prems(2) co] have "P st1" .
      from Cons.IH [OF csC this run] show ?thesis .
    qed
  qed
qed

lemma consider_archive_while_closed:
  "closed_under e C P \<Longrightarrow> set cs \<subseteq> C \<Longrightarrow> P st \<Longrightarrow>
     consider_archive_while e force cs (aa, st) = (aa', st') \<Longrightarrow> P st'"
proof (induction e force cs "(aa, st)" arbitrary: aa st rule: consider_archive_while.induct)
  case (1 e force cs aa st)
  obtain la aa1 st1 where pass: "archive_for e force cs (False, aa, st) = (la, aa1, st1)"
    by (cases "archive_for e force cs (False, aa, st)")
  note cl = "1.prems"(1) and sub = "1.prems"(2)
  from archive_for_closed [OF cl sub "1.prems"(3) pass] have P1: "P st1" .
  show ?case
  proof (cases la)
    case True
    with "1.prems"(4) pass have "consider_archive_while e force cs (aa1, st1) = (aa', st')"
      by (simp add: consider_archive_while_again)
    from "1.hyps" [OF pass [symmetric] refl True cl sub P1 this] show ?thesis .
  next
    case False
    with "1.prems"(4) pass have "st' = st1" by (simp add: consider_archive_while_stop)
    with P1 show ?thesis by simp
  qed
qed

lemma consider_archive_closed:
  assumes "closed_under e C P" "group_members e [a] \<subseteq> C" "P st"
    "consider_archive e force a st = Inr (b, st')"
  shows "P st'"
proof -
  from assms(4) obtain cs where cs: "ar_contents e a = Some cs"
    and w: "consider_archive_while e force cs (False, st) = (b, st')"
    by (auto simp: consider_archive_def split: option.splits)
  from assms(2) cs have "set cs \<subseteq> C" by (simp add: group_members_def)
  from consider_archive_while_closed [OF assms(1) this assms(3) w] show ?thesis .
qed

lemma group_for_closed:
  assumes cl: "closed_under e C P"
  shows "group_members e g \<subseteq> C \<Longrightarrow> P st \<Longrightarrow> group_for e force g (la, st) = Inr (la', st') \<Longrightarrow> P st'"
proof (induction g arbitrary: la st)
  case Nil
  then show ?case by simp
next
  case (Cons a g)
  from Cons.prems(3) obtain added st1 where
    ca: "consider_archive e force a st = Inr (added, st1)" and
    rest: "group_for e force g (if added then True else la, st1) = Inr (la', st')"
    by (auto split: sum.splits)
  from Cons.prems(1) have a: "group_members e [a] \<subseteq> C" and g: "group_members e g \<subseteq> C"
    by (auto simp: group_members_def)
  from consider_archive_closed [OF cl a Cons.prems(2) ca] have "P st1" .
  from Cons.IH [OF g this rest] show ?case .
qed

lemma scan_archive_group_closed:
  "closed_under e C P \<Longrightarrow> group_members e g \<subseteq> C \<Longrightarrow> P st \<Longrightarrow>
     scan_archive_group e force g st = Inr st' \<Longrightarrow> P st'"
proof (induction e force g st rule: scan_archive_group.induct)
  case (1 e force g st)
  note cl = "1.prems"(1) and sub = "1.prems"(2) and run = "1.prems"(4)
  from run obtain la st1 where pass: "group_for e force g (False, st) = Inr (la, st1)"
    by (cases "group_for e force g (False, st)") (auto simp: scan_archive_group_error)
  from group_for_closed [OF cl sub "1.prems"(3) pass] have P1: "P st1" .
  show ?case
  proof (cases la)
    case True
    with run pass have "scan_archive_group e force g st1 = Inr st'"
      by (simp add: scan_archive_group_again)
    from "1.IH" [OF pass refl True cl sub P1 this] show ?thesis .
  next
    case False
    with run pass have "st' = st1" by (simp add: scan_archive_group_stop)
    with P1 show ?thesis by simp
  qed
qed

lemma start_group_dash: "is_start_group f \<Longrightarrow> startswith_dash f"
  by (auto simp: is_start_group_def startswith_dash_def)

lemma end_group_dash: "is_end_group f \<Longrightarrow> startswith_dash f"
  by (auto simp: is_end_group_def startswith_dash_def)

lemma start_not_end: "is_start_group f \<Longrightarrow> \<not> is_end_group f"
  by (auto simp: is_start_group_def is_end_group_def)

lemma link_step_start:
  "is_start_group f \<Longrightarrow> link_step e h force f (g, st) =
     (case g of None \<Rightarrow> Inr (Some [], st) | Some _ \<Rightarrow> Inl NestedStartGroup)"
  using start_group_dash [of f]
  by (simp add: link_step_def is_start_group_def del: set_simps)

lemma link_step_end:
  "is_end_group f \<Longrightarrow> link_step e h force f (g, st) =
     (case g of None \<Rightarrow> Inl EndGroupWithoutStartGroup
      | Some grp \<Rightarrow> (case scan_archive_group e force grp st of
                       Inl err \<Rightarrow> Inl err | Inr st' \<Rightarrow> Inr (None, st')))"
  using end_group_dash [of f] start_not_end [of f]
  by (auto simp: link_step_def is_start_group_def is_end_group_def simp del: set_simps)

lemma link_step_flag:
  "startswith_dash f \<Longrightarrow> \<not> is_start_group f \<Longrightarrow> \<not> is_end_group f \<Longrightarrow>
     link_step e h force f (g, st) = Inl (UnsupportedLinkFlag f)"
  by (simp add: link_step_def is_start_group_def is_end_group_def del: set_simps)

lemma link_step_object:
  "\<not> startswith_dash f \<Longrightarrow> \<not> is_ar e (abspath e f) \<Longrightarrow>
     link_step e h force f (g, st) =
       (if is_bitcode e (abspath e f) then
          if h then Inr (g, snd (consider_object e (abspath e f) True st))
          else Inr (g, st\<lparr>actual_files := actual_files st @ [f]\<rparr>)
        else Inr (g, st))"
  by (simp add: link_step_def make_paths_absolute_def)

lemma link_step_archive:
  "\<not> startswith_dash f \<Longrightarrow> is_ar e (abspath e f) \<Longrightarrow>
     link_step e h force f (g, st) =
       (case consider_archive e force (abspath e f) st of
          Inl err \<Rightarrow> Inl err
        | Inr (added, st') \<Rightarrow>
            Inr (case g of None \<Rightarrow> None | Some grp \<Rightarrow> Some (grp @ [abspath e f]), st'))"
  by (simp add: link_step_def make_paths_absolute_def Let_def)

lemma link_step_closed:
  assumes cl: "closed_under e UNIV P" and fast: "h \<or> append_closed P" and P: "P st"
    and step: "link_step e h force f (g, st) = Inr (g', st')"
  shows "P st'"
proof -
  consider (start) "is_start_group f" | (endg) "is_end_group f"
    | (flag) "startswith_dash f" "\<not> is_start_group f" "\<not> is_end_group f"
    | (obj) "\<not> startswith_dash f" "\<not> is_ar e (abspath e f)"
    | (ar) "\<not> startswith_dash f" "is_ar e (abspath e f)"
    by blast
  then show ?thesis
  proof cases
    case start
    with step have "st' = st" by (auto simp: link_step_start split: option.splits)
    with P show ?thesis by simp
  next
    case endg
    with step obtain grp where "scan_archive_group e force grp st = Inr st'"
      by (auto simp: link_step_end split: option.splits sum.splits)
    from scan_archive_group_closed [OF cl _ P this] show ?thesis by simp
  next
    case flag
    with step show ?thesis by (simp add: link_step_flag)
  next
    case obj
    with step have "st' = st \<or> (h \<and> st' = snd (consider_object e (abspath e f) True st))
        \<or> (\<not> h \<and> st' = st\<lparr>actual_files := actual_files st @ [f]\<rparr>)"
      by (auto simp: link_step_object split: if_splits)
    moreover have "P (snd (consider_object e (abspath e f) True st))"
      using closed_underD1 [OF cl UNIV_I P] by (metis surjective_pairing)
    moreover have "\<not> h \<Longrightarrow> P (st\<lparr>actual_files := actual_files st @ [f]\<rparr>)"
      using fast P by (simp add: append_closed_def)
    ultimately show ?thesis using P by blast
  next
    case ar
    with step obtain added where
      "consider_archive e force (abspath e f) st = Inr (added, st')"
      by (auto simp: link_step_archive split: sum.splits)
    from consider_archive_closed [OF cl _ P this] show ?thesis by simp
  qed
qed

lemma link_for_closed:
  assumes cl: "closed_under e UNIV P" and fast: "h \<or> append_closed P"
  shows "P st \<Longrightarrow> link_for e h force files (g, st) = Inr (g', st') \<Longrightarrow> P st'"
proof (induction files arbitrary: g st)
  case Nil
  then show ?case by simp
next
  case (Cons f files)
  from Cons.prems(2) obtain g1 st1 where step: "link_step e h force f (g, st) = Inr (g1, st1)"
    and rest: "link_for e h force files (g1, st1) = Inr (g', st')"
    by (auto split: sum.splits)
  from link_step_closed [OF cl fast Cons.prems(1) step] have "P st1" .
  from Cons.IH [OF this rest] show ?case .
qed

lemma link_scan_closed:
  assumes cl: "closed_under e UNIV P" and fast: "has_ar e files \<or> append_closed P"
    and init: "P (initial_state e)"
    and run: "link_scan e files force_archive_contents = Inr st"
  shows "P st"
proof -
  let ?force = "force_add_all files force_archive_contents"
  from run obtain g st1 where
    loop: "link_for e (has_ar e files) ?force files (None, initial_state e) = Inr (g, st1)"
    by (auto simp: link_scan_def Let_def split: sum.splits)
  from link_for_closed [OF cl fast init loop] have P1: "P st1" .
  show ?thesis
  proof (cases "\<exists>a grp. g = Some (a # grp)")
    case True
    then obtain a grp where g: "g = Some (a # grp)" by blast
    with run loop have "scan_archive_group e ?force (a # grp) st1 = Inr st"
      by (simp add: link_scan_def Let_def)
    from scan_archive_group_closed [OF cl _ P1 this] show ?thesis by simp
  next
    case False
    with run loop have "st = st1"
      by (auto simp: link_scan_def Let_def split: option.splits list.splits)
    with P1 show ?thesis by simp
  qed
qed

subsection \<open>unique_ordered\<close>

lemma unique_ordered_from_set: "set (unique_ordered_from seen xs) = set xs - seen"
  by (induction xs arbitrary: seen) auto

lemma unique_ordered_from_distinct: "distinct (unique_ordered_from seen xs)"
  by (induction xs arbitrary: seen) (auto simp: unique_ordered_from_set)

lemma unique_ordered_from_id:
  "distinct xs \<Longrightarrow> set xs \<inter> seen = {} \<Longrightarrow> unique_ordered_from seen xs = xs"
  by (induction xs arbitrary: seen) auto

lemma unique_ordered_set: "set (unique_ordered xs) = set xs"
  by (simp add: unique_ordered_def unique_ordered_from_set)

lemma unique_ordered_distinct: "distinct (unique_ordered xs)"
  by (simp add: unique_ordered_def unique_ordered_from_distinct)

lemma unique_ordered_id: "distinct xs \<Longrightarrow> unique_ordered xs = xs"
  by (simp add: unique_ordered_def unique_ordered_from_id)

subsection \<open>The symbol tables stay disjoint\<close>

lemma consider_object_disjoint:
  "symbols_disjoint st \<Longrightarrow> symbols_disjoint (snd (consider_object e f force st))"
  by (auto simp: consider_object_def symbols_disjoint_def Let_def log_warning_def)

lemma consider_object_resolved:
  "resolved_symbols (snd (consider_object e f force st)) =
     (if fst (consider_object e f force st) then resolved_symbols st \<union> provided e f
      else resolved_symbols st)"
  by (auto simp: consider_object_def Let_def log_warning_def provided_def)

lemma symbols_disjoint_closed: "closed_under e UNIV symbols_disjoint"
  unfolding closed_under_def
proof (intro ballI allI impI conjI)
  fix c force st
  assume "symbols_disjoint st"
  then show d: "symbols_disjoint (snd (consider_object e c force st))"
    by (rule consider_object_disjoint)
  then show "symbols_disjoint ((snd (consider_object e c force st))
      \<lparr>added_contents := insert c (added_contents (snd (consider_object e c force st)))\<rparr>)"
    by (simp add: symbols_disjoint_def)
qed

lemma symbols_disjoint_append: "append_closed symbols_disjoint"
  by (simp add: append_closed_def symbols_disjoint_def)

lemma symbols_disjoint_initial: "symbols_disjoint (initial_state e)"
  by (simp add: symbols_disjoint_def initial_state_def)

text \<open>
  C10. A link starts with the exported names (without their first character) as the
  unresolved symbols and with no resolved symbol, so the two sets are disjoint. A call
  of \<^verbatim>\<open>consider_object\<close> in a state where they are disjoint leaves them disjoint and
  does not remove a resolved symbol; when it adds the object, the resolved symbols
  become the old ones together with the symbols the object provides. Hence the two
  sets are disjoint in the state in which the scan of \<^verbatim>\<open>link\<close> ends.
\<close>

theorem resolution_state_invariant:
  "unresolved_symbols (initial_state e) = set (map (drop 1) (EXPORTED_FUNCTIONS e)) \<and>
   resolved_symbols (initial_state e) = {} \<and>
   symbols_disjoint (initial_state e) \<and>
   (symbols_disjoint st \<longrightarrow>
      symbols_disjoint (snd (consider_object e f force st)) \<and>
      resolved_symbols st \<subseteq> resolved_symbols (snd (consider_object e f force st)) \<and>
      (fst (consider_object e f force st) \<longrightarrow>
         resolved_symbols (snd (consider_object e f force st)) = resolved_symbols st \<union> provided e f)) \<and>
   (link_scan e files force_archive_contents = Inr st' \<longrightarrow> symbols_disjoint st')"
proof (intro conjI impI)
  show "unresolved_symbols (initial_state e) = set (map (drop 1) (EXPORTED_FUNCTIONS e))"
    by (simp add: initial_state_def)
  show "resolved_symbols (initial_state e) = {}"
    by (simp add: initial_state_def)
  show "symbols_disjoint (initial_state e)"
    by (rule symbols_disjoint_initial)
  show "resolved_symbols st \<subseteq> resolved_symbols (snd (consider_object e f force st))"
    by (simp add: consider_object_resolved)
next
  assume "symbols_disjoint st"
  then show "symbols_disjoint (snd (consider_object e f force st))"
    by (rule consider_object_disjoint)
next
  assume "fst (consider_object e f force st)"
  then show "resolved_symbols (snd (consider_object e f force st)) = resolved_symbols st \<union> provided e f"
    by (simp add: consider_object_resolved)
next
  assume "link_scan e files force_archive_contents = Inr st'"
  with symbols_disjoint_closed symbols_disjoint_initial symbols_disjoint_append
  show "symbols_disjoint st'"
    by (blast intro: link_scan_closed)
qed

subsection \<open>An example link\<close>

lemmas link_eval =
  resolve_def link_scan_def has_ar_def force_add_all_def link_step_def
  make_paths_absolute_def startswith_dash_def initial_state_def consider_object_def
  is_valid_for_nm_def consider_archive_def consider_archive_while.simps
  scan_archive_group.simps Let_def unique_ordered_def log_warning_def
  symbols_def nm_failure_def

lemma app_link_scan:
  "link_scan app_env [''main.o'', ''libfoo.a''] False =
     Inr \<lparr> unresolved_symbols = {}, resolved_symbols = {''main'', ''foo'', ''bar''},
           added_contents = {''/tmp/foo.o'', ''/tmp/baz.o''},
           actual_files = [''/main.o'', ''/tmp/foo.o'', ''/tmp/baz.o''],
           warnings = [] \<rparr>"
  by (auto simp add: link_eval app_env_def app_nm_def)

theorem resolution_state_invariant_witness:
  "symbols_disjoint (initial_state app_env) \<and>
   fst (consider_object app_env ''/main.o'' True (initial_state app_env)) \<and>
   resolved_symbols (snd (consider_object app_env ''/main.o'' True (initial_state app_env))) = {''main''} \<and>
   symbols_disjoint (snd (consider_object app_env ''/main.o'' True (initial_state app_env))) \<and>
   (\<exists>st. link_scan app_env [''main.o'', ''libfoo.a''] False = Inr st \<and> symbols_disjoint st)"
proof -
  have adds: "fst (consider_object app_env ''/main.o'' True (initial_state app_env))"
    by (simp add: link_eval app_env_def app_nm_def)
  have prov: "provided app_env ''/main.o'' = {''main''}"
    by (simp add: provided_def app_env_def app_nm_def symbols_def)
  note inv = resolution_state_invariant [of app_env "initial_state app_env" "''/main.o''" True
      "[''main.o'', ''libfoo.a'']" False]
  from inv adds prov app_link_scan show ?thesis
    by (simp add: initial_state_def)
qed

subsection \<open>A pass that adds nothing\<close>

lemma settled_same: "same_link st st' \<Longrightarrow> settled e force cs st \<Longrightarrow> settled e force cs st'"
  by (simp add: same_link_def settled_def)

lemma group_settled_same:
  "same_link st st' \<Longrightarrow> group_settled e force grp st \<Longrightarrow> group_settled e force grp st'"
  unfolding group_settled_def using settled_same by blast

lemma archive_for_flags:
  "archive_for e force cs (la, aa, st) = (la', aa', st') \<Longrightarrow>
     (la \<longrightarrow> la') \<and> (aa \<longrightarrow> aa') \<and> (la' \<longrightarrow> la \<or> aa')"
proof (induction cs arbitrary: la aa st)
  case Nil
  then show ?case by simp
next
  case (Cons c cs)
  obtain b st1 where co: "consider_object e c force st = (b, st1)"
    by (cases "consider_object e c force st")
  consider (skip) "c \<in> added_contents st" | (add) "c \<notin> added_contents st" "b"
    | (rej) "c \<notin> added_contents st" "\<not> b" by blast
  then show ?case
  proof cases
    case skip
    with Cons.prems have "archive_for e force cs (la, aa, st) = (la', aa', st')" by simp
    from Cons.IH [OF this] show ?thesis .
  next
    case add
    with Cons.prems co
    have "archive_for e force cs (True, True, st1\<lparr>added_contents := insert c (added_contents st1)\<rparr>)
              = (la', aa', st')" by simp
    from Cons.IH [OF this] show ?thesis by simp
  next
    case rej
    with Cons.prems co have "archive_for e force cs (la, aa, st1) = (la', aa', st')" by simp
    from Cons.IH [OF this] show ?thesis .
  qed
qed

lemma archive_for_quiet:
  "archive_for e force cs (la, aa, st) = (False, aa', st') \<Longrightarrow>
     \<not> la \<and> aa' = aa \<and> same_link st st' \<and> settled e force cs st"
proof (induction cs arbitrary: la aa st)
  case Nil
  then show ?case by (simp add: same_link_refl settled_def)
next
  case (Cons c cs)
  obtain b st1 where co: "consider_object e c force st = (b, st1)"
    by (cases "consider_object e c force st")
  then have b: "b = wanted e force (unresolved_symbols st) c"
    using consider_object_fst [of e c force st] by simp
  consider (skip) "c \<in> added_contents st" | (add) "c \<notin> added_contents st" "b"
    | (rej) "c \<notin> added_contents st" "\<not> b" by blast
  then show ?case
  proof cases
    case skip
    with Cons.prems have "archive_for e force cs (la, aa, st) = (False, aa', st')" by simp
    from Cons.IH [OF this] skip show ?thesis by (simp add: settled_def)
  next
    case add
    with Cons.prems co
    have "archive_for e force cs (True, True, st1\<lparr>added_contents := insert c (added_contents st1)\<rparr>)
              = (False, aa', st')" by simp
    from Cons.IH [OF this] show ?thesis by simp
  next
    case rej
    with Cons.prems co have run: "archive_for e force cs (la, aa, st1) = (False, aa', st')" by simp
    from rej b consider_object_rejected [of e force st c] co
    have same: "same_link st st1" by simp
    from Cons.IH [OF run] have ih: "\<not> la" "aa' = aa" "same_link st1 st'" "settled e force cs st1"
      by simp_all
    have "same_link st1 st" using same by (simp add: same_link_def)
    from settled_same [OF this ih(4)] have "settled e force cs st" .
    with rej b have "settled e force (c # cs) st" by (simp add: settled_def)
    with ih same show ?thesis by (blast intro: same_link_trans)
  qed
qed

lemma consider_archive_while_settled:
  "consider_archive_while e force cs (aa, st) = (aa', st') \<Longrightarrow>
     settled e force cs st' \<and> (\<not> aa' \<longrightarrow> \<not> aa \<and> same_link st st')"
proof (induction e force cs "(aa, st)" arbitrary: aa st rule: consider_archive_while.induct)
  case (1 e force cs aa st)
  obtain la aa1 st1 where pass: "archive_for e force cs (False, aa, st) = (la, aa1, st1)"
    by (cases "archive_for e force cs (False, aa, st)")
  show ?case
  proof (cases la)
    case True
    with "1.prems" pass have run: "consider_archive_while e force cs (aa1, st1) = (aa', st')"
      by (simp add: consider_archive_while_again)
    from archive_for_flags [OF pass] True have "aa1" by simp
    with "1.hyps" [OF pass [symmetric] refl True run] show ?thesis by simp
  next
    case False
    with "1.prems" pass have eq: "aa' = aa1" "st' = st1"
      by (simp_all add: consider_archive_while_stop)
    from archive_for_quiet [of e force cs False aa st aa1 st1] pass False
    have q: "aa1 = aa" "same_link st st1" "settled e force cs st" by simp_all
    from settled_same [OF q(2,3)] q eq archive_for_flags [OF pass] show ?thesis by simp
  qed
qed

lemma group_for_quiet:
  "group_for e force g (la, st) = Inr (False, st') \<Longrightarrow>
     \<not> la \<and> same_link st st' \<and> group_settled e force g st'"
proof (induction g arbitrary: la st)
  case Nil
  then show ?case by (simp add: same_link_refl group_settled_def)
next
  case (Cons a g)
  from Cons.prems obtain added st1 where
    ca: "consider_archive e force a st = Inr (added, st1)" and
    rest: "group_for e force g (if added then True else la, st1) = Inr (False, st')"
    by (auto split: sum.splits)
  from ca obtain cs where cs: "ar_contents e a = Some cs"
    and w: "consider_archive_while e force cs (False, st) = (added, st1)"
    by (auto simp: consider_archive_def split: option.splits)
  from Cons.IH [OF rest] have ih: "\<not> added" "\<not> la" "same_link st1 st'" "group_settled e force g st'"
    by (simp_all split: if_splits)
  from consider_archive_while_settled [OF w] ih(1)
  have "settled e force cs st1" "same_link st st1" by simp_all
  with ih(3) have "settled e force cs st'" "same_link st st'"
    by (blast intro: settled_same same_link_trans)+
  with ih cs show ?case by (simp add: group_settled_def)
qed

lemma scan_archive_group_settled:
  "scan_archive_group e force g st = Inr st' \<Longrightarrow> group_settled e force g st'"
proof (induction e force g st rule: scan_archive_group.induct)
  case (1 e force g st)
  from "1.prems" obtain la st1 where pass: "group_for e force g (False, st) = Inr (la, st1)"
    by (cases "group_for e force g (False, st)") (auto simp: scan_archive_group_error)
  show ?case
  proof (cases la)
    case True
    with "1.prems" pass have "scan_archive_group e force g st1 = Inr st'"
      by (simp add: scan_archive_group_again)
    from "1.IH" [OF pass refl True this] show ?thesis .
  next
    case False
    with "1.prems" pass have "st' = st1" by (simp add: scan_archive_group_stop)
    with group_for_quiet [of e force g False st st1] pass False show ?thesis by simp
  qed
qed

subsection \<open>The rescan loops as while loops\<close>

lemma consider_archive_loop_from:
  "while_option (\<lambda>(loop_again, added_any, st). loop_again)
       (\<lambda>(loop_again, added_any, st). archive_for e force cs (False, added_any, st))
       (True, aa, st)
   = Some (False, consider_archive_while e force cs (aa, st))"
proof (induction e force cs "(aa, st)" arbitrary: aa st rule: consider_archive_while.induct)
  case (1 e force cs aa st)
  let ?b = "\<lambda>(loop_again, added_any, st). loop_again"
  let ?c = "\<lambda>(loop_again, added_any, st). archive_for e force cs (False, added_any, st)"
  obtain la aa1 st1 where pass: "archive_for e force cs (False, aa, st) = (la, aa1, st1)"
    by (cases "archive_for e force cs (False, aa, st)")
  have step: "while_option ?b ?c (True, aa, st) = while_option ?b ?c (la, aa1, st1)"
    by (subst while_option_unfold) (simp add: pass)
  show ?case
  proof (cases la)
    case True
    from "1.hyps" [OF pass [symmetric] refl True]
    have "while_option ?b ?c (True, aa1, st1) = Some (False, consider_archive_while e force cs (aa1, st1))" .
    with step True pass show ?thesis by (simp add: consider_archive_while_again)
  next
    case False
    have "while_option ?b ?c (False, aa1, st1) = Some (False, aa1, st1)"
      by (subst while_option_unfold) simp
    with step False pass show ?thesis by (simp add: consider_archive_while_stop)
  qed
qed

lemma scan_archive_group_loop_from:
  "while_option (\<lambda>s. case s of Inl err \<Rightarrow> False | Inr (loop_again, st) \<Rightarrow> loop_again)
       (\<lambda>s. case s of Inl err \<Rightarrow> Inl err | Inr (loop_again, st) \<Rightarrow> group_for e force g (False, st))
       (Inr (True, st))
   = Some (case scan_archive_group e force g st of Inl err \<Rightarrow> Inl err | Inr st' \<Rightarrow> Inr (False, st'))"
proof (induction e force g st rule: scan_archive_group.induct)
  case (1 e force g st)
  let ?b = "\<lambda>s. case s of Inl err \<Rightarrow> False | Inr (loop_again, st) \<Rightarrow> loop_again"
  let ?c = "\<lambda>s. case s of Inl err \<Rightarrow> Inl err
                  | Inr (loop_again, st) \<Rightarrow> group_for e force g (False, st)"
  have step: "while_option ?b ?c (Inr (True, st)) = while_option ?b ?c (group_for e force g (False, st))"
    by (subst while_option_unfold) simp
  show ?case
  proof (cases "group_for e force g (False, st)")
    case (Inl err)
    have "while_option ?b ?c (Inl err) = Some (Inl err)"
      by (subst while_option_unfold) simp
    with step Inl show ?thesis by (simp add: scan_archive_group_error)
  next
    case (Inr r)
    obtain la st1 where r: "r = (la, st1)" by (cases r)
    show ?thesis
    proof (cases la)
      case True
      from "1.IH" [of "(la, st1)" la st1] Inr r True
      have "while_option ?b ?c (Inr (True, st1))
          = Some (case scan_archive_group e force g st1 of Inl err \<Rightarrow> Inl err | Inr st' \<Rightarrow> Inr (False, st'))"
        by simp
      with step Inr r True show ?thesis by (simp add: scan_archive_group_again)
    next
      case False
      have "while_option ?b ?c (Inr (False, st1)) = Some (Inr (False, st1))"
        by (subst while_option_unfold) simp
      with step Inr r False show ?thesis by (simp add: scan_archive_group_stop)
    qed
  qed
qed

text \<open>
  C7. Both rescan loops end: the \<^verbatim>\<open>while\<close> loop of \<^verbatim>\<open>consider_archive\<close> returns for
  every archive and every state, and so does the loop of \<^verbatim>\<open>scan_archive_group\<close> for
  every group (with the state it reaches, or with the exception of a lookup). The
  reason is the one the specification gives. One pass over an archive never removes a
  path from \<^verbatim>\<open>added_contents\<close> and adds members of the archive only; a pass that asks
  for another pass has added a member that was not in \<^verbatim>\<open>added_contents\<close>, and a pass
  that does not ask for one has changed nothing but the log. The same holds for one
  pass over a group, and the number of members outside \<^verbatim>\<open>added_contents\<close> decreases
  with every pass that asks for another one.
\<close>

theorem rescan_loops_terminate:
  "consider_archive_loop e force contents st
     = Some (False, consider_archive_while e force contents (False, st)) \<and>
   scan_archive_group_loop e force grp st
     = Some (case scan_archive_group e force grp st of
               Inl err \<Rightarrow> Inl err | Inr st' \<Rightarrow> Inr (False, st')) \<and>
   (archive_for e force contents (False, aa, st) = (la, aa', st') \<longrightarrow>
      added_contents st \<subseteq> added_contents st' \<and>
      added_contents st' \<subseteq> added_contents st \<union> set contents \<and>
      (la \<longrightarrow> added_contents st \<subset> added_contents st' \<and>
         card (set contents - added_contents st') < card (set contents - added_contents st)) \<and>
      (\<not> la \<longrightarrow> same_link st st')) \<and>
   (group_for e force grp (False, st) = Inr (la, st') \<longrightarrow>
      added_contents st \<subseteq> added_contents st' \<and>
      added_contents st' \<subseteq> added_contents st \<union> group_members e grp \<and>
      (la \<longrightarrow> added_contents st \<subset> added_contents st' \<and>
         card (group_members e grp - added_contents st') < card (group_members e grp - added_contents st)) \<and>
      (\<not> la \<longrightarrow> same_link st st'))"
proof (intro conjI impI)
  show "consider_archive_loop e force contents st
     = Some (False, consider_archive_while e force contents (False, st))"
    unfolding consider_archive_loop_def by (rule consider_archive_loop_from)
  show "scan_archive_group_loop e force grp st
     = Some (case scan_archive_group e force grp st of
               Inl err \<Rightarrow> Inl err | Inr st' \<Rightarrow> Inr (False, st'))"
    unfolding scan_archive_group_loop_def by (rule scan_archive_group_loop_from)
next
  assume pass: "archive_for e force contents (False, aa, st) = (la, aa', st')"
  from archive_for_added_contents [OF pass]
  show "added_contents st \<subseteq> added_contents st'"
    "added_contents st' \<subseteq> added_contents st \<union> set contents" by simp_all
  { assume la
    with archive_for_added_contents [OF pass] archive_for_measure [of e force contents aa st aa' st'] pass
    show "added_contents st \<subset> added_contents st'"
      "card (set contents - added_contents st') < card (set contents - added_contents st)"
      by simp_all }
  { assume "\<not> la"
    with archive_for_quiet [of e force contents False aa st aa' st'] pass
    show "same_link st st'" by simp }
next
  assume pass: "group_for e force grp (False, st) = Inr (la, st')"
  from group_for_added_contents [OF pass]
  show "added_contents st \<subseteq> added_contents st'"
    "added_contents st' \<subseteq> added_contents st \<union> group_members e grp" by simp_all
  { assume la
    with group_for_added_contents [OF pass] group_for_measure [of e force grp st st'] pass
    show "added_contents st \<subset> added_contents st'"
      "card (group_members e grp - added_contents st') < card (group_members e grp - added_contents st)"
      by simp_all }
  { assume "\<not> la"
    with group_for_quiet [of e force grp False st st'] pass
    show "same_link st st'" by simp }
qed

lemma app_archive_for:
  "archive_for app_env False [''/tmp/foo.o'', ''/tmp/baz.o''] (False, False, app_after_main)
     = (True, True, app_after_libfoo)"
  by (auto simp add: link_eval app_env_def app_nm_def app_after_main_def app_after_libfoo_def)

lemma app_archive_for_again:
  "archive_for app_env False [''/tmp/foo.o'', ''/tmp/baz.o''] (False, True, app_after_libfoo)
     = (False, True, app_after_libfoo)"
  by (simp add: app_after_libfoo_def)

lemma app_group_for:
  "group_for app_env False [''/libfoo.a''] (False, app_after_main) = Inr (True, app_after_libfoo)"
proof -
  have "consider_archive_while app_env False [''/tmp/foo.o'', ''/tmp/baz.o''] (False, app_after_main)
      = (True, app_after_libfoo)"
    by (simp add: consider_archive_while_again [OF app_archive_for]
        consider_archive_while_stop [OF app_archive_for_again])
  then show ?thesis by (simp add: consider_archive_def app_env_def)
qed

theorem rescan_loops_terminate_witness:
  "consider_archive_loop app_env False [''/tmp/foo.o'', ''/tmp/baz.o''] app_after_main \<noteq> None \<and>
   scan_archive_group_loop app_env False [''/libfoo.a''] app_after_main \<noteq> None \<and>
   archive_for app_env False [''/tmp/foo.o'', ''/tmp/baz.o''] (False, False, app_after_main)
     = (True, True, app_after_libfoo) \<and>
   group_for app_env False [''/libfoo.a''] (False, app_after_main) = Inr (True, app_after_libfoo) \<and>
   added_contents app_after_main \<subset> added_contents app_after_libfoo \<and>
   card (set [''/tmp/foo.o'', ''/tmp/baz.o''] - added_contents app_after_libfoo)
     < card (set [''/tmp/foo.o'', ''/tmp/baz.o''] - added_contents app_after_main) \<and>
   card (group_members app_env [''/libfoo.a''] - added_contents app_after_libfoo)
     < card (group_members app_env [''/libfoo.a''] - added_contents app_after_main)"
  using rescan_loops_terminate [of app_env False "[''/tmp/foo.o'', ''/tmp/baz.o'']" app_after_main
      "[''/libfoo.a'']" False True True app_after_libfoo]
    app_archive_for app_group_for
  by simp

subsection \<open>What the linked files account for\<close>

lemma linked_inv_same: "same_link st st' \<Longrightarrow> linked_inv e S X st \<Longrightarrow> linked_inv e S X st'"
  by (simp add: same_link_def linked_inv_def)

lemma linked_inv_added:
  "linked_inv e S X st \<Longrightarrow> c \<in> set (actual_files st) \<Longrightarrow>
     linked_inv e S X (st\<lparr>added_contents := insert c (added_contents st)\<rparr>)"
  by (simp add: linked_inv_def)

lemma linked_inv_accepted:
  assumes "linked_inv e S X st" "c \<in> S"
  shows "linked_inv e S X
    (st\<lparr> resolved_symbols := resolved_symbols st \<union> provided e c,
         unresolved_symbols :=
           (unresolved_symbols st \<union> (undefs (llvm_nm e c) - (resolved_symbols st \<union> provided e c)))
             - provided e c,
         actual_files := actual_files st @ [c] \<rparr>)"
  using assms unfolding linked_inv_def
  by (simp add: subset_iff) blast

lemma linked_inv_closed: "closed_under e S (linked_inv e S X)"
  unfolding closed_under_def
proof (intro ballI allI impI conjI)
  fix c force st
  assume c: "c \<in> S" and inv: "linked_inv e S X st"
  show step: "linked_inv e S X (snd (consider_object e c force st))"
  proof (cases "wanted e force (unresolved_symbols st) c")
    case True
    from consider_object_accepted [OF True] linked_inv_accepted [OF inv c]
    show ?thesis by simp
  next
    case False
    from linked_inv_same [OF consider_object_rejected [OF False] inv] show ?thesis .
  qed
  assume "fst (consider_object e c force st)"
  then have w: "wanted e force (unresolved_symbols st) c"
    by (simp add: consider_object_fst)
  have "c \<in> set (actual_files (snd (consider_object e c force st)))"
    by (simp add: consider_object_accepted [OF w])
  from linked_inv_added [OF step this]
  show "linked_inv e S X ((snd (consider_object e c force st))
      \<lparr>added_contents := insert c (added_contents (snd (consider_object e c force st)))\<rparr>)" .
qed

lemma linked_inv_initial:
  "linked_inv e S (set (map (drop 1) (EXPORTED_FUNCTIONS e))) (initial_state e)"
  by (simp add: linked_inv_def initial_state_def)

subsection \<open>The scans return unless a lookup fails\<close>

lemma group_for_total:
  "\<forall>a \<in> set g. ar_contents e a \<noteq> None \<Longrightarrow> \<exists>r. group_for e force g (la, st) = Inr r"
proof (induction g arbitrary: la st)
  case Nil
  then show ?case by simp
next
  case (Cons a g)
  then obtain cs where "ar_contents e a = Some cs" by auto
  then obtain added st1 where "consider_archive e force a st = Inr (added, st1)"
    by (cases "consider_archive_while e force cs (False, st)") (simp add: consider_archive_def)
  with Cons show ?case by simp
qed

lemma scan_archive_group_total:
  "\<forall>a \<in> set g. ar_contents e a \<noteq> None \<Longrightarrow> \<exists>st'. scan_archive_group e force g st = Inr st'"
proof (induction e force g st rule: scan_archive_group.induct)
  case (1 e force g st)
  from group_for_total [OF "1.prems"] obtain la st1 where
    pass: "group_for e force g (False, st) = Inr (la, st1)" by fastforce
  show ?case
  proof (cases la)
    case True
    from "1.IH" [OF pass refl True "1.prems"] pass True show ?thesis
      by (simp add: scan_archive_group_again)
  next
    case False
    with pass show ?thesis by (simp add: scan_archive_group_stop)
  qed
qed

subsection \<open>A group of two archives that need each other\<close>

lemma consider_archive_known:
  "ar_contents e a = Some cs \<Longrightarrow>
     consider_archive e force a st = Inr (consider_archive_while e force cs (False, st))"
  by (simp add: consider_archive_def)

lemma group_members_two:
  "ar_contents e A = Some [a] \<Longrightarrow> ar_contents e B = Some [b] \<Longrightarrow>
     group_members e [A] = {a} \<and> group_members e [B] = {b} \<and> group_members e [A, B] = {a, b}"
  by (auto simp: group_members_def)

text \<open>
  C1. The inputs are \<^verbatim>\<open>--start-group A B --end-group\<close> (or \<^verbatim>\<open>-( A B -)\<close>), where \<open>A\<close>
  and \<open>B\<close> are archives with one member each, \<open>a\<close> and \<open>b\<close>, both valid objects.
  \<open>a\<close> needs a symbol \<open>y\<close> that \<open>b\<close> provides and \<open>a\<close> does not, \<open>b\<close> needs a symbol
  \<open>x\<close> that \<open>a\<close> provides and \<open>b\<close> does not, and \<open>x\<close> or \<open>y\<close> is one of the exported
  names the link starts from. Then the link succeeds and both members are among the
  files to link. The reason is that a group is scanned until it is settled: when
  \<^verbatim>\<open>scan_archive_group\<close> returns, no member of an archive of the group that is still
  outside \<^verbatim>\<open>added_contents\<close> would be added by \<^verbatim>\<open>consider_object\<close>.
\<close>

theorem group_fixed_point:
  assumes start: "s \<in> set [''--start-group'', ''-('']"
    and endg: "t \<in> set [''--end-group'', ''-)'']"
    and A: "\<not> startswith_dash A" "is_ar e (abspath e A)" "ar_contents e (abspath e A) = Some [a]"
    and B: "\<not> startswith_dash B" "is_ar e (abspath e B)" "ar_contents e (abspath e B) = Some [b]"
    and valid: "valid_object e a" "valid_object e b"
    and x: "x \<in> undefs (llvm_nm e b)" "x \<in> provided e a" "x \<notin> provided e b"
    and y: "y \<in> undefs (llvm_nm e a)" "y \<in> provided e b" "y \<notin> provided e a"
    and root: "x \<in> set (map (drop 1) (EXPORTED_FUNCTIONS e)) \<or> y \<in> set (map (drop 1) (EXPORTED_FUNCTIONS e))"
  shows "(\<exists>out. resolve e [s, A, B, t] force_archive_contents = Inr out \<and>
            a \<in> set out \<and> b \<in> set out) \<and>
         (\<forall>force grp st st'. scan_archive_group e force grp st = Inr st' \<longrightarrow>
            group_settled e force grp st')"
proof (intro conjI allI impI)
  fix force grp st st'
  assume "scan_archive_group e force grp st = Inr st'"
  then show "group_settled e force grp st'" by (rule scan_archive_group_settled)
next
  let ?force = "force_add_all [s, A, B, t] force_archive_contents"
  let ?h = "has_ar e [s, A, B, t]"
  let ?A = "abspath e A" and ?B = "abspath e B"
  let ?X = "set (map (drop 1) (EXPORTED_FUNCTIONS e))"
  let ?P = "linked_inv e {a, b} ?X"
  define st0 where "st0 = initial_state e"
  obtain b1 st1 where w1: "consider_archive_while e ?force [a] (False, st0) = (b1, st1)"
    by (cases "consider_archive_while e ?force [a] (False, st0)")
  obtain b2 st2 where w2: "consider_archive_while e ?force [b] (False, st1) = (b2, st2)"
    by (cases "consider_archive_while e ?force [b] (False, st1)")
  from A B have keys: "\<forall>k \<in> set [?A, ?B]. ar_contents e k \<noteq> None" by simp
  from scan_archive_group_total [OF keys] obtain st3 where
    scan: "scan_archive_group e ?force [?A, ?B] st2 = Inr st3" by blast
  \<comment> \<open>the four steps of the main loop\<close>
  have s: "is_start_group s" and t: "is_end_group t"
    using start endg by (simp_all add: is_start_group_def is_end_group_def)
  have step1: "link_step e ?h ?force s (None, st0) = Inr (Some [], st0)"
    by (simp add: link_step_start [OF s])
  have step2: "link_step e ?h ?force A (Some [], st0) = Inr (Some [?A], st1)"
    by (simp add: link_step_archive [OF A(1,2)] consider_archive_known [OF A(3)] w1)
  have step3: "link_step e ?h ?force B (Some [?A], st1) = Inr (Some [?A, ?B], st2)"
    by (simp add: link_step_archive [OF B(1,2)] consider_archive_known [OF B(3)] w2)
  have step4: "link_step e ?h ?force t (Some [?A, ?B], st2) = Inr (None, st3)"
    by (simp add: link_step_end [OF t] scan)
  have "link_for e ?h ?force [s, A, B, t] (None, st0) = Inr (None, st3)"
    by (simp add: step1 step2 step3 step4)
  then have run: "link_scan e [s, A, B, t] force_archive_contents = Inr st3"
    by (simp add: link_scan_def st0_def)
  \<comment> \<open>what holds in the final state\<close>
  note members = group_members_two [OF A(3) B(3)]
  have cl: "closed_under e {a, b} ?P" by (rule linked_inv_closed)
  have "?P st0" unfolding st0_def by (rule linked_inv_initial)
  from consider_archive_while_closed [OF cl _ this w1] have "?P st1" by simp
  from consider_archive_while_closed [OF cl _ this w2] have "?P st2" by simp
  from scan_archive_group_closed [OF cl _ this scan] members have inv: "?P st3" by simp
  from scan_archive_group_settled [OF scan] A(3) B(3)
  have settled: "settled e ?force [a] st3" "settled e ?force [b] st3"
    by (simp_all add: group_settled_def)
  let ?U = "unresolved_symbols st3" and ?R = "resolved_symbols st3" and ?F = "set (actual_files st3)"
  from inv have added: "added_contents st3 \<subseteq> ?F" and files: "?F \<subseteq> {a, b}"
    and res: "?R \<subseteq> (\<Union>c \<in> ?F. provided e c)"
    and needs: "\<And>c. c \<in> ?F \<Longrightarrow> undefs (llvm_nm e c) \<subseteq> ?U \<union> ?R"
    and roots: "?X \<subseteq> ?U \<union> ?R"
    by (auto simp: linked_inv_def)
  have get_a: "a \<in> ?F" if "x \<in> ?U \<union> ?R"
  proof (cases "x \<in> ?R")
    case True
    with res obtain c where "c \<in> ?F" "x \<in> provided e c" by blast
    with files x(3) show ?thesis by auto
  next
    case False
    with that have "x \<in> ?U" by simp
    with x(2) valid(1) have "wanted e ?force ?U a" by (auto simp: wanted_def)
    with settled(1) have "a \<in> added_contents st3" by (auto simp: settled_def)
    with added show ?thesis by blast
  qed
  have get_b: "b \<in> ?F" if "y \<in> ?U \<union> ?R"
  proof (cases "y \<in> ?R")
    case True
    with res obtain c where "c \<in> ?F" "y \<in> provided e c" by blast
    with files y(3) show ?thesis by auto
  next
    case False
    with that have "y \<in> ?U" by simp
    with y(2) valid(2) have "wanted e ?force ?U b" by (auto simp: wanted_def)
    with settled(2) have "b \<in> added_contents st3" by (auto simp: settled_def)
    with added show ?thesis by blast
  qed
  have "a \<in> ?F \<and> b \<in> ?F"
  proof (cases "x \<in> ?X")
    case True
    with roots get_a have a: "a \<in> ?F" by blast
    from needs [OF a] y(1) get_b have "b \<in> ?F" by blast
    with a show ?thesis by simp
  next
    case False
    with root roots get_b have b: "b \<in> ?F" by blast
    from needs [OF b] x(1) get_a have "a \<in> ?F" by blast
    with b show ?thesis by simp
  qed
  with run show "\<exists>out. resolve e [s, A, B, t] force_archive_contents = Inr out \<and>
      a \<in> set out \<and> b \<in> set out"
    by (simp add: resolve_def unique_ordered_set)
qed

theorem group_fixed_point_witness:
  "\<exists>out. resolve cycle_env [''--start-group'', ''libping.a'', ''libpong.a'', ''--end-group''] False = Inr out
     \<and> ''/tmp/ping.o'' \<in> set out \<and> ''/tmp/pong.o'' \<in> set out"
  using group_fixed_point [of "''--start-group''" "''--end-group''" "''libping.a''" cycle_env
      "''/tmp/ping.o''" "''libpong.a''" "''/tmp/pong.o''" "''ping''" "''pong''" False, THEN conjunct1]
  by (simp add: cycle_env_def cycle_nm_def startswith_dash_def valid_object_def provided_def
      is_valid_for_nm_def symbols_def)

lemma cycle_resolve:
  "resolve cycle_env [''--start-group'', ''libping.a'', ''libpong.a'', ''--end-group''] False
     = Inr [''/tmp/pong.o'', ''/tmp/ping.o'']"
  by (simp add: link_eval cycle_env_def cycle_nm_def)

subsection \<open>Linking with the force flag\<close>

lemma consider_object_files:
  "actual_files (snd (consider_object e f force st)) =
     (if fst (consider_object e f force st) then actual_files st @ [f] else actual_files st)"
  by (auto simp: consider_object_def Let_def log_warning_def)

lemma added_linked_closed: "closed_under e UNIV added_linked"
  unfolding closed_under_def added_linked_def
  by (auto simp: consider_object_files consider_object_added_contents)

lemma added_linked_append: "append_closed added_linked"
  by (auto simp: append_closed_def added_linked_def)

lemma added_linked_initial: "added_linked (initial_state e)"
  by (simp add: added_linked_def initial_state_def)

text \<open>Files stay in \<^verbatim>\<open>actual_files\<close>.\<close>

lemma has_files_closed: "closed_under e UNIV (\<lambda>st. c \<in> set (actual_files st))"
  unfolding closed_under_def by (auto simp: consider_object_files)

lemma has_files_append: "append_closed (\<lambda>st. c \<in> set (actual_files st))"
  by (auto simp: append_closed_def)

lemma link_for_append:
  "link_for e h force (pre @ post) s = Inr r \<Longrightarrow>
     \<exists>s1. link_for e h force pre s = Inr s1 \<and> link_for e h force post s1 = Inr r"
  by (induction pre arbitrary: s) (auto split: sum.splits)

lemma link_scan_cases:
  assumes "link_scan e files force_archive_contents = Inr st"
  obtains g st1 where
    "link_for e (has_ar e files) (force_add_all files force_archive_contents) files (None, initial_state e)
       = Inr (g, st1)"
    "st = st1 \<or> (\<exists>grp. scan_archive_group e (force_add_all files force_archive_contents) grp st1 = Inr st)"
proof -
  let ?force = "force_add_all files force_archive_contents"
  from assms obtain g st1 where
    loop: "link_for e (has_ar e files) ?force files (None, initial_state e) = Inr (g, st1)"
    by (auto simp: link_scan_def Let_def split: sum.splits)
  with assms have "st = st1 \<or> (\<exists>grp. scan_archive_group e ?force grp st1 = Inr st)"
    by (auto simp: link_scan_def Let_def split: option.splits list.splits)
  with loop that show thesis by blast
qed

lemma forced_members_linked:
  assumes force: "force_add_all files force_archive_contents"
    and run: "link_scan e files force_archive_contents = Inr st"
    and A: "A \<in> set files" "\<not> startswith_dash A" "is_ar e (abspath e A)"
      "ar_contents e (abspath e A) = Some contents"
    and c: "c \<in> set contents" "valid_object e c"
  shows "c \<in> set (actual_files st)"
proof -
  let ?h = "has_ar e files"
  let ?P = "\<lambda>st. c \<in> set (actual_files st)"
  from force have f: "force_add_all files force_archive_contents = True" by simp
  from link_scan_cases [OF run] obtain g st3 where
    loop: "link_for e ?h True files (None, initial_state e) = Inr (g, st3)"
    and last: "st = st3 \<or> (\<exists>grp. scan_archive_group e True grp st3 = Inr st)"
    unfolding f by blast
  from A(1) obtain pre post where files: "files = pre @ A # post"
    by (auto simp: in_set_conv_decomp)
  from loop files have "link_for e ?h True (pre @ A # post) (None, initial_state e) = Inr (g, st3)"
    by simp
  from link_for_append [OF this] obtain s1 where
    pre': "link_for e ?h True pre (None, initial_state e) = Inr s1"
    and rest: "link_for e ?h True (A # post) s1 = Inr (g, st3)"
    by blast
  obtain g1 st1 where s1: "s1 = (g1, st1)" by (cases s1)
  note pre = pre' [unfolded s1]
  from rest s1 obtain s2 where step': "link_step e ?h True A (g1, st1) = Inr s2"
    and post': "link_for e ?h True post s2 = Inr (g, st3)"
    by (cases "link_step e ?h True A (g1, st1)") auto
  obtain g2 st2 where s2: "s2 = (g2, st2)" by (cases s2)
  note step = step' [unfolded s2] and post = post' [unfolded s2]
  from step A obtain added where
    w: "consider_archive_while e True contents (False, st1) = (added, st2)"
    by (cases "consider_archive_while e True contents (False, st1)")
      (auto simp: link_step_archive consider_archive_known)
  have "added_linked st1"
    using link_for_closed [OF added_linked_closed _ added_linked_initial pre] added_linked_append
    by simp
  from consider_archive_while_closed [OF added_linked_closed _ this w]
  have "added_linked st2" by simp
  moreover from consider_archive_while_settled [OF w] c
  have "c \<in> added_contents st2" by (auto simp: settled_def wanted_def)
  ultimately have "?P st2" by (auto simp: added_linked_def)
  from link_for_closed [of e ?P, OF has_files_closed _ this post] has_files_append [of c]
  have "?P st3" by blast
  with last scan_archive_group_closed [of e UNIV ?P, OF has_files_closed _ this]
  show ?thesis by auto
qed

lemma archive_for_forced:
  "archive_for e True cs (la, aa, st) = (la', aa', st') \<Longrightarrow>
     actual_files st' =
       actual_files st @ unique_ordered_from (added_contents st) (filter (valid_object e) cs) \<and>
     added_contents st' = added_contents st \<union> set (filter (valid_object e) cs)"
proof (induction cs arbitrary: la aa st)
  case Nil
  then show ?case by simp
next
  case (Cons c cs)
  have w: "wanted e True (unresolved_symbols st) c = valid_object e c"
    by (simp add: wanted_def)
  consider (skip) "c \<in> added_contents st" | (add) "c \<notin> added_contents st" "valid_object e c"
    | (rej) "c \<notin> added_contents st" "\<not> valid_object e c" by blast
  then show ?case
  proof cases
    case skip
    with Cons.prems have "archive_for e True cs (la, aa, st) = (la', aa', st')" by simp
    from Cons.IH [OF this] skip show ?thesis by auto
  next
    case add
    let ?st1 = "st\<lparr> resolved_symbols := resolved_symbols st \<union> provided e c,
               unresolved_symbols :=
                 (unresolved_symbols st \<union> (undefs (llvm_nm e c) - (resolved_symbols st \<union> provided e c)))
                   - provided e c,
               actual_files := actual_files st @ [c] \<rparr>"
    from add w have co: "consider_object e c True st = (True, ?st1)"
      by (simp add: consider_object_accepted)
    with Cons.prems add
    have "archive_for e True cs (True, True, ?st1\<lparr>added_contents := insert c (added_contents ?st1)\<rparr>)
            = (la', aa', st')" by simp
    from Cons.IH [OF this] add show ?thesis by simp
  next
    case rej
    obtain b st1 where co: "consider_object e c True st = (b, st1)"
      by (cases "consider_object e c True st")
    with rej w consider_object_fst [of e c True st] have b: "\<not> b" by simp
    from rej w consider_object_rejected [of e True st c] co have same: "same_link st st1" by simp
    from Cons.prems rej co b have "archive_for e True cs (la, aa, st1) = (la', aa', st')" by simp
    from Cons.IH [OF this] same rej show ?thesis by (simp add: same_link_def)
  qed
qed

lemma archive_for_settled:
  "settled e force cs st \<Longrightarrow> \<exists>st'. archive_for e force cs (la, aa, st) = (la, aa, st') \<and> same_link st st'"
proof (induction cs arbitrary: st)
  case Nil
  then show ?case by (simp add: same_link_refl)
next
  case (Cons c cs)
  from Cons.prems have rest: "settled e force cs st" by (simp add: settled_def)
  show ?case
  proof (cases "c \<in> added_contents st")
    case True
    with Cons.IH [OF rest] show ?thesis by simp
  next
    case False
    with Cons.prems have nw: "\<not> wanted e force (unresolved_symbols st) c" by (simp add: settled_def)
    obtain b st1 where co: "consider_object e c force st = (b, st1)"
      by (cases "consider_object e c force st")
    with nw consider_object_fst [of e c force st] have b: "\<not> b" by simp
    from nw consider_object_rejected [of e force st c] co have same: "same_link st st1" by simp
    from Cons.IH [OF settled_same [OF same rest]] obtain st' where
      "archive_for e force cs (la, aa, st1) = (la, aa, st')" "same_link st1 st'" by blast
    with False co b same show ?thesis by (auto intro: same_link_trans)
  qed
qed

lemma consider_archive_while_forced:
  assumes "consider_archive_while e True cs (False, st) = (aa', st')"
  shows "actual_files st' =
    actual_files st @ unique_ordered_from (added_contents st) (filter (valid_object e) cs)"
proof -
  obtain la aa1 st1 where pass: "archive_for e True cs (False, False, st) = (la, aa1, st1)"
    by (cases "archive_for e True cs (False, False, st)")
  note first = archive_for_forced [OF pass]
  show ?thesis
  proof (cases la)
    case False
    with assms pass have "st' = st1" by (simp add: consider_archive_while_stop)
    with first show ?thesis by simp
  next
    case True
    from first have "settled e True cs st1" by (auto simp: settled_def wanted_def)
    from archive_for_settled [OF this] obtain st2 where
      again: "archive_for e True cs (False, aa1, st1) = (False, aa1, st2)" and same: "same_link st1 st2"
      by blast
    from assms pass True have "consider_archive_while e True cs (aa1, st1) = (aa', st')"
      by (simp add: consider_archive_while_again)
    with again have "st' = st2" by (simp add: consider_archive_while_stop)
    with same first show ?thesis by (simp add: same_link_def)
  qed
qed

text \<open>
  C2. When the only input of a link is an archive, the files to link are the valid
  members of the archive (those the symbol tool accepts and that are bitcode), in the
  order of the archive, each once: every valid member is linked, whatever symbols it
  defines and whatever is exported. More generally, whenever the force flag is set (one
  input only, or \<^verbatim>\<open>force_archive_contents\<close>), every valid member of every archive among
  the inputs is among the files to link.
\<close>

theorem whole_archive:
  assumes A: "\<not> startswith_dash A" "is_ar e (abspath e A)"
      "ar_contents e (abspath e A) = Some contents"
  shows "resolve e [A] force_archive_contents
           = Inr (unique_ordered (filter (valid_object e) contents)) \<and>
         (\<forall>c \<in> set contents. valid_object e c \<longrightarrow>
            (\<exists>out. resolve e [A] force_archive_contents = Inr out \<and> c \<in> set out)) \<and>
         (\<forall>files out. force_add_all files force_archive_contents \<and> A \<in> set files \<and>
            resolve e files force_archive_contents = Inr out \<longrightarrow>
            (\<forall>c \<in> set contents. valid_object e c \<longrightarrow> c \<in> set out))"
proof (intro conjI allI impI ballI)
  obtain aa st where w: "consider_archive_while e True contents (False, initial_state e) = (aa, st)"
    by (cases "consider_archive_while e True contents (False, initial_state e)")
  have "link_for e (has_ar e [A]) True [A] (None, initial_state e) = Inr (None, st)"
    by (simp add: link_step_archive [OF A(1,2)] consider_archive_known [OF A(3)] w)
  then have "link_scan e [A] force_archive_contents = Inr st"
    by (simp add: link_scan_def force_add_all_def)
  moreover from consider_archive_while_forced [OF w]
  have "actual_files st = unique_ordered (filter (valid_object e) contents)"
    by (simp add: initial_state_def unique_ordered_def)
  ultimately show one: "resolve e [A] force_archive_contents
      = Inr (unique_ordered (filter (valid_object e) contents))"
    by (simp add: resolve_def unique_ordered_id unique_ordered_distinct)
  fix c
  assume "c \<in> set contents" "valid_object e c"
  with one show "\<exists>out. resolve e [A] force_archive_contents = Inr out \<and> c \<in> set out"
    by (simp add: unique_ordered_set)
next
  fix files out c
  assume run: "force_add_all files force_archive_contents \<and> A \<in> set files \<and>
      resolve e files force_archive_contents = Inr out"
    and c: "c \<in> set contents" "valid_object e c"
  from run obtain st where st: "link_scan e files force_archive_contents = Inr st"
    and out: "out = unique_ordered (actual_files st)"
    by (auto simp: resolve_def split: sum.splits)
  from run forced_members_linked [OF _ st _ A c] have "c \<in> set (actual_files st)" by blast
  with out show "c \<in> set out" by (simp add: unique_ordered_set)
qed

theorem whole_archive_witness:
  "resolve app_env [''libfoo.a''] False = Inr [''/tmp/foo.o'', ''/tmp/baz.o''] \<and>
   set (map (drop 1) (EXPORTED_FUNCTIONS app_env))
     \<inter> (provided app_env ''/tmp/foo.o'' \<union> provided app_env ''/tmp/baz.o'') = {}"
proof -
  have 1: "\<not> startswith_dash ''libfoo.a''" by (simp add: startswith_dash_def)
  have 2: "is_ar app_env (abspath app_env ''libfoo.a'')" by (simp add: app_env_def)
  have 3: "ar_contents app_env (abspath app_env ''libfoo.a'') = Some [''/tmp/foo.o'', ''/tmp/baz.o'']"
    by (simp add: app_env_def)
  have 4: "filter (valid_object app_env) [''/tmp/foo.o'', ''/tmp/baz.o''] = [''/tmp/foo.o'', ''/tmp/baz.o'']"
    by (simp add: valid_object_def app_env_def app_nm_def symbols_def is_valid_for_nm_def)
  have "resolve app_env [''libfoo.a''] False = Inr [''/tmp/foo.o'', ''/tmp/baz.o'']"
    unfolding whole_archive [OF 1 2 3, of False, THEN conjunct1] 4
    by (simp add: unique_ordered_def)
  then show ?thesis
    by (simp add: provided_def app_env_def app_nm_def symbols_def)
qed

subsection \<open>Links without archives\<close>













subsection \<open>Archives with one member\<close>

lemma consider_archive_while_single_wanted:
  assumes "c \<notin> added_contents st" "wanted e force (unresolved_symbols st) c"
  shows "consider_archive_while e force [c] (False, st)
     = (True, (add_object e c st)\<lparr>added_contents := insert c (added_contents st)\<rparr>)"
proof -
  let ?st1 = "(add_object e c st)\<lparr>added_contents := insert c (added_contents st)\<rparr>"
  have 1: "archive_for e force [c] (False, False, st) = (True, True, ?st1)"
    using assms by (simp add: consider_object_accepted add_object_def)
  have 2: "archive_for e force [c] (False, True, ?st1) = (False, True, ?st1)"
    by simp
  show ?thesis
    by (simp add: consider_archive_while_again [OF 1] consider_archive_while_stop [OF 2])
qed

lemma consider_archive_while_single_rejected:
  assumes "c \<notin> added_contents st" "\<not> wanted e force (unresolved_symbols st) c"
  shows "\<exists>st'. consider_archive_while e force [c] (False, st) = (False, st') \<and> same_link st st'"
proof -
  obtain b st' where co: "consider_object e c force st = (b, st')"
    by (cases "consider_object e c force st")
  with assms(2) consider_object_fst [of e c force st] have b: "\<not> b" by simp
  from assms(2) consider_object_rejected [of e force st c] co have same: "same_link st st'" by simp
  from assms(1) co b have "archive_for e force [c] (False, False, st) = (False, False, st')"
    by simp
  from consider_archive_while_stop [OF this] same show ?thesis by simp
qed

text \<open>
  C4, as the code has it. \<open>B\<close> is listed before \<open>A\<close>, both are archives with one valid
  member, \<open>b\<close> and \<open>a\<close>; \<open>a\<close> provides \<open>f\<close>, \<open>b\<close> needs \<open>f\<close> and does not provide it,
  and \<open>f\<close> is exported. Then \<open>a\<close> is linked, once. \<open>b\<close> is a member of an archive, so it
  is linked (before \<open>a\<close>, once) only when it provides an exported symbol itself, or when
  \<^verbatim>\<open>force_archive_contents\<close> is set; otherwise \<open>a\<close> is the only file to link.
\<close>

theorem ordered_single_pass:
  assumes B: "\<not> startswith_dash B" "is_ar e (abspath e B)" "ar_contents e (abspath e B) = Some [b]"
    and A: "\<not> startswith_dash A" "is_ar e (abspath e A)" "ar_contents e (abspath e A) = Some [a]"
    and valid: "valid_object e a" "valid_object e b"
    and f: "f \<in> provided e a" "f \<in> undefs (llvm_nm e b)" "f \<notin> provided e b"
    and root: "f \<in> set (map (drop 1) (EXPORTED_FUNCTIONS e))"
  shows "resolve e [B, A] force_archive_contents =
    Inr (if force_archive_contents \<or> set (map (drop 1) (EXPORTED_FUNCTIONS e)) \<inter> provided e b \<noteq> {}
         then [b, a] else [a])"
proof -
  let ?force = "force_add_all [B, A] force_archive_contents"
  let ?h = "has_ar e [B, A]"
  let ?X = "set (map (drop 1) (EXPORTED_FUNCTIONS e))"
  let ?st0 = "initial_state e"
  have force: "?force = force_archive_contents" by (simp add: force_add_all_def)
  from f have ab: "a \<noteq> b" by auto
  have wb: "wanted e ?force (unresolved_symbols ?st0) b
      = (force_archive_contents \<or> ?X \<inter> provided e b \<noteq> {})"
    using valid by (simp add: wanted_def force initial_state_def)
  have steps: "link_for e ?h ?force [B, A] (None, ?st0) =
      (case consider_archive_while e ?force [b] (False, ?st0) of
         (added1, st1) \<Rightarrow>
           (case consider_archive_while e ?force [a] (False, st1) of
              (added2, st2) \<Rightarrow> Inr (None, st2)))"
    by (simp add: link_step_archive [OF B(1,2)] link_step_archive [OF A(1,2)]
        consider_archive_known [OF B(3)] consider_archive_known [OF A(3)] split: prod.splits)
  show ?thesis
  proof (cases "force_archive_contents \<or> ?X \<inter> provided e b \<noteq> {}")
    case True
    let ?st1 = "(add_object e b ?st0)\<lparr>added_contents := insert b (added_contents ?st0)\<rparr>"
    from True wb have "wanted e ?force (unresolved_symbols ?st0) b" by simp
    from consider_archive_while_single_wanted [OF _ this]
    have 1: "consider_archive_while e ?force [b] (False, ?st0) = (True, ?st1)"
      by (simp add: initial_state_def)
    have "f \<in> unresolved_symbols ?st1"
      using root f by (simp add: add_object_def initial_state_def)
    with f(1) valid(1) have wa: "wanted e ?force (unresolved_symbols ?st1) a"
      by (auto simp: wanted_def)
    have "a \<notin> added_contents ?st1" using ab by (simp add: add_object_def initial_state_def)
    from consider_archive_while_single_wanted [OF this wa] obtain st2 where
      2: "consider_archive_while e ?force [a] (False, ?st1) = (True, st2)"
      and files: "actual_files st2 = [b, a]"
      by (simp add: add_object_def initial_state_def)
    from steps 1 2 have "link_scan e [B, A] force_archive_contents = Inr st2"
      by (simp add: link_scan_def)
    with files True ab show ?thesis
      by (simp add: resolve_def unique_ordered_def)
  next
    case False
    with wb have "\<not> wanted e ?force (unresolved_symbols ?st0) b" by simp
    from consider_archive_while_single_rejected [OF _ this] obtain st1 where
      1: "consider_archive_while e ?force [b] (False, ?st0) = (False, st1)"
      and same: "same_link ?st0 st1"
      by (auto simp: initial_state_def)
    from same root have "f \<in> unresolved_symbols st1"
      by (simp add: same_link_def initial_state_def)
    with f(1) valid(1) have wa: "wanted e ?force (unresolved_symbols st1) a"
      by (auto simp: wanted_def)
    from same have "a \<notin> added_contents st1" by (simp add: same_link_def initial_state_def)
    from consider_archive_while_single_wanted [OF this wa] same obtain st2 where
      2: "consider_archive_while e ?force [a] (False, st1) = (True, st2)"
      and files: "actual_files st2 = [a]"
      by (simp add: add_object_def same_link_def initial_state_def)
    from steps 1 2 have "link_scan e [B, A] force_archive_contents = Inr st2"
      by (simp add: link_scan_def)
    with files False show ?thesis
      by (simp add: resolve_def unique_ordered_def)
  qed
qed

lemmas order_eval =
  order_env_def order_nm_def startswith_dash_def valid_object_def provided_def
  is_valid_for_nm_def symbols_def

theorem ordered_single_pass_witness:
  "resolve order_env [''libb.a'', ''liba.a''] False = Inr [''/tmp/a.o''] \<and>
   resolve (order_env\<lparr>EXPORTED_FUNCTIONS := [''_f'', ''_helper'']\<rparr>) [''libb.a'', ''liba.a''] False
     = Inr [''/tmp/b.o'', ''/tmp/a.o'']"
  using ordered_single_pass [of "''libb.a''" order_env "''/tmp/b.o''" "''liba.a''" "''/tmp/a.o''" "''f''" False]
    ordered_single_pass [of "''libb.a''" "order_env\<lparr>EXPORTED_FUNCTIONS := [''_f'', ''_helper'']\<rparr>"
      "''/tmp/b.o''" "''liba.a''" "''/tmp/a.o''" "''f''" False]
  by (simp add: order_eval)

text \<open>
  C4 as stated fails: the member of \<open>B\<close> needs \<^verbatim>\<open>f\<close> but provides nothing that is
  unresolved when \<open>B\<close> is scanned, so it is not linked; only the member of \<open>A\<close> is.
\<close>

theorem ordered_single_pass_counterexample:
  "''f'' \<in> provided order_env ''/tmp/a.o'' \<and>
   ''f'' \<in> undefs (llvm_nm order_env ''/tmp/b.o'') \<and>
   ''f'' \<in> set (map (drop 1) (EXPORTED_FUNCTIONS order_env)) \<and>
   resolve order_env [''libb.a'', ''liba.a''] False = Inr [''/tmp/a.o''] \<and>
   resolve order_env [''libb.a'', ''liba.a''] False \<noteq> Inr [''/tmp/b.o'', ''/tmp/a.o'']"
  by (simp add: link_eval order_eval)

subsection \<open>Objects that cannot be linked\<close>









section \<open>Properties of parse_symbols\<close>

lemma upper_char_code:
  "of_char (upper_char c) = (if is_lower c then (of_char c :: nat) - 32 else of_char c)"
  by (cases c) (auto simp: upper_char_def is_lower_def)

subsection \<open>The parsing rules\<close>











section \<open>Properties of the graph of metadce\<close>

subsection \<open>Roots and imports\<close>

lemma strip_imports_length: "strip_imports graph = Inr graph' \<Longrightarrow> length graph' = length graph"
  by (induction graph arbitrary: graph') (auto split: sum.splits)

lemma strip_imports_nth:
  "strip_imports graph = Inr graph' \<Longrightarrow> i < length graph \<Longrightarrow> strip_import (graph ! i) = Inr (graph' ! i)"
proof (induction graph arbitrary: graph' i)
  case Nil
  then show ?case by simp
next
  case (Cons item graph)
  then show ?case by (cases i) (auto split: sum.splits)
qed

lemma strip_import_fields:
  "strip_import item = Inr item' \<Longrightarrow>
     item_name item' = item_name item \<and> item_reaches item' = item_reaches item \<and>
     item_root item' = item_root item \<and> item_export item' = item_export item \<and>
     item_import item' =
       map_option (\<lambda>imp. if hd (imp ! 1) = CHR ''_'' then imp[1 := drop 1 (imp ! 1)] else imp)
         (item_import item)"
  by (auto simp: strip_import_def split: option.splits if_splits)

lemma mark_root_fields:
  "item_name (mark_root s item) = item_name item \<and>
   item_reaches (mark_root s item) = item_reaches item \<and>
   item_export (mark_root s item) = item_export item \<and>
   item_import (mark_root s item) = item_import item"
  by (simp add: mark_root_def Let_def split: option.splits)

lemma mark_root_root:
  "item_root (mark_root s item) =
     (case item_export item of
        None \<Rightarrow> item_root item
      | Some export \<Rightarrow>
          if (if WASM_BACKEND s then ''_'' @ export else export) \<in> set (user_requested_exports s)
             \<or> EXPORT_ALL s
          then Some True else item_root item)"
  by (simp add: mark_root_def Let_def split: option.splits)

text \<open>
  C9. In the graph that \<^verbatim>\<open>metadce\<close> builds, every item keeps its name, its edges and
  its export. An item with an export is marked as a root exactly when the export, with
  the prefix \<^verbatim>\<open>_\<close> that a requested export carries under the wasm backend (and no
  prefix under the other backend), is a requested export, or \<^verbatim>\<open>EXPORT_ALL\<close> is set;
  an item that is not marked keeps the root flag it came with, and so does an item
  without an export. Under the wasm backend the name of every import loses a leading
  \<^verbatim>\<open>_\<close>; under the other backend imports are unchanged.
\<close>

theorem metadce_roots:
  assumes "metadce_graph s graph = Inr graph'"
  shows "length graph' = length graph \<and>
    (\<forall>i < length graph.
       item_name (graph' ! i) = item_name (graph ! i) \<and>
       item_reaches (graph' ! i) = item_reaches (graph ! i) \<and>
       item_export (graph' ! i) = item_export (graph ! i) \<and>
       item_root (graph' ! i) =
         (case item_export (graph ! i) of
            None \<Rightarrow> item_root (graph ! i)
          | Some export \<Rightarrow>
              if (if WASM_BACKEND s then ''_'' @ export else export) \<in> set (user_requested_exports s)
                 \<or> EXPORT_ALL s
              then Some True else item_root (graph ! i)) \<and>
       item_import (graph' ! i) =
         (if WASM_BACKEND s
          then map_option (\<lambda>imp. if hd (imp ! 1) = CHR ''_'' then imp[1 := drop 1 (imp ! 1)] else imp)
                 (item_import (graph ! i))
          else item_import (graph ! i)))"
proof (cases "WASM_BACKEND s")
  case False
  with assms have "graph' = map (mark_root s) graph" by (simp add: metadce_graph_def)
  with False show ?thesis by (simp add: mark_root_fields mark_root_root)
next
  case True
  with assms have strip: "strip_imports (map (mark_root s) graph) = Inr graph'"
    by (simp add: metadce_graph_def)
  from strip_imports_length [OF strip] have len: "length graph' = length graph" by simp
  have "strip_import (mark_root s (graph ! i)) = Inr (graph' ! i)" if "i < length graph" for i
    using strip_imports_nth [OF strip, of i] that by simp
  from strip_import_fields [OF this] len True show ?thesis
    by (simp add: mark_root_fields mark_root_root)
qed

lemma dce_example_graph: "metadce_graph dce_wasm dce_example = Inr dce_example_marked"
  by (simp add: metadce_graph_def dce_wasm_def dce_example_def dce_example_marked_def
      mark_root_def strip_import_def)

theorem metadce_roots_witness:
  "metadce_graph dce_wasm dce_example = Inr dce_example_marked \<and>
   length dce_example_marked = 3 \<and>
   item_root (dce_example_marked ! 0) = Some True \<and>
   item_root (dce_example_marked ! 1) = None \<and>
   item_import (dce_example_marked ! 2) = Some [''env'', ''puts'']"
proof -
  note inst = metadce_roots [OF dce_example_graph]
  have len: "length dce_example = 3" by (simp add: dce_example_def)
  from inst len have "length dce_example_marked = 3" by simp
  moreover from inst [THEN conjunct2, rule_format, of 0] len
  have "item_root (dce_example_marked ! 0) = Some True"
    by (simp add: dce_example_def dce_wasm_def)
  moreover from inst [THEN conjunct2, rule_format, of 1] len
  have "item_root (dce_example_marked ! 1) = None"
    by (simp add: dce_example_def dce_wasm_def)
  moreover from inst [THEN conjunct2, rule_format, of 2] len
  have "item_import (dce_example_marked ! 2) = Some [''env'', ''puts'']"
    by (simp add: dce_example_def dce_wasm_def)
  ultimately show ?thesis using dce_example_graph by simp
qed

section \<open>Properties of the extraction of an archive\<close>

subsection \<open>Which entries are reported\<close>



lemma duplicate_entries_none: "distinct xs \<Longrightarrow> duplicate_entries warned xs = []"
  by (induction xs arbitrary: warned) auto







end
